theory Spec2Isabelle
  imports Main "HOL-Library.AList" "HOL-Library.Sublist"
begin

section \<open>JavaScript strings and values\<close>

text \<open>
  A JavaScript string is modelled as a \<^typ>\<open>string\<close>: the list of its code units, for
  the strings whose code units are below 256. In that range the line terminators of a
  regular expression's \<open>.\<close> are line feed and carriage return, and the white space of
  \<open>\s\<close> is tab, line feed, vertical tab, form feed, carriage return, space and the
  no-break space.
\<close>

definition charCode :: "char \<Rightarrow> nat" where
  "charCode c = of_char c"

definition inRange :: "char \<Rightarrow> char \<Rightarrow> char \<Rightarrow> bool" where
  "inRange lo hi c = (charCode lo \<le> charCode c \<and> charCode c \<le> charCode hi)"

definition isLineTerminator :: "char \<Rightarrow> bool" where
  "isLineTerminator c = (c = CHR 0x0A \<or> c = CHR 0x0D)"

definition isWhiteSpace :: "char \<Rightarrow> bool" where
  "isWhiteSpace c = (c \<in> {CHR 0x09, CHR 0x0A, CHR 0x0B, CHR 0x0C, CHR 0x0D, CHR 0x20, CHR 0xA0})"

text \<open>\<open>s.split(sep)\<close> for a separator that is one character or a character class.\<close>

fun splitBy :: "(char \<Rightarrow> bool) \<Rightarrow> string \<Rightarrow> string list" where
  "splitBy P [] = [[]]"
| "splitBy P (c # cs) =
     (if P c then [] # splitBy P cs
      else (case splitBy P cs of
              [] \<Rightarrow> [[c]]
            | part # parts \<Rightarrow> (c # part) # parts))"

text \<open>\<open>s.replace(/\.md$/, '')\<close> and \<open>s.replace(/\.html$/, "")\<close>: drop the suffix when it is there.\<close>

definition stripSuffix :: "string \<Rightarrow> string \<Rightarrow> string" where
  "stripSuffix suf s = (if suffix suf s then take (length s - length suf) s else s)"

text \<open>\<open>s.replace(/[^a-zA-Z0-9-]/g, '')\<close>.\<close>

definition isCleanChar :: "char \<Rightarrow> bool" where
  "isCleanChar c =
     (inRange CHR ''a'' CHR ''z'' c \<or> inRange CHR ''A'' CHR ''Z'' c
      \<or> inRange CHR ''0'' CHR ''9'' c \<or> c = CHR ''-'')"

definition cleanName :: "string \<Rightarrow> string" where
  "cleanName s = filter isCleanChar s"

text \<open>
  \<open>s.toLowerCase()\<close>. Only the ASCII letters are mapped: the result is compared with
  ASCII words alone, and no other code unit below 256 lowers to an ASCII letter.
\<close>

definition lowerChar :: "char \<Rightarrow> char" where
  "lowerChar c =
     (if inRange CHR ''A'' CHR ''Z'' c then char_of (charCode c + 32) else c)"

definition toLowerCase :: "string \<Rightarrow> string" where
  "toLowerCase s = map lowerChar s"

text \<open>\<open>s.replace(pat, rep)\<close> with a string pattern: the first occurrence only. The
  replacement texts of the code hold no \<open>$\<close>, so none of them is a replacement pattern.\<close>

fun replaceFirst :: "string \<Rightarrow> string \<Rightarrow> string \<Rightarrow> string" where
  "replaceFirst pat rep [] = (if pat = [] then rep else [])"
| "replaceFirst pat rep (c # cs) =
     (if prefix pat (c # cs) then rep @ drop (length pat) (c # cs)
      else c # replaceFirst pat rep cs)"

text \<open>The decimal digits of a natural number, as a template literal prints a counter.\<close>

definition digitChar :: "nat \<Rightarrow> char" where
  "digitChar d = char_of (charCode CHR ''0'' + d)"

fun natToString :: "nat \<Rightarrow> string" where
  "natToString n =
     (if n < 10 then [digitChar n] else natToString (n div 10) @ [digitChar (n mod 10)])"

declare natToString.simps [simp del]

text \<open>
  A Number, as \<open>Number::toString\<close> reads it (ECMAScript, step 5 of that operation): its
  sign, the integer \<open>s\<close> written by its \<open>k\<close> significant decimal digits, the shortest
  that give the Number back, and the exponent \<open>n\<close>; the value is \<open>s \<times> 10\<^sup>n\<^sup>-\<^sup>k\<close>. The
  digits \<open>0\<close> stand for the two zeros. \<open>1.5\<close> has the digits 15 and the exponent 1,
  \<open>1000\<close> the digits 1 and the exponent 4, \<open>1e21\<close> the digits 1 and the exponent 22.
\<close>

datatype number = Number (negative: bool) (digits: nat) (exponent: int)

text \<open>
  The rest of \<open>Number::toString\<close>, radix 10: the digits followed by zeros when the
  Number is an integer below \<open>10\<^sup>2\<^sup>1\<close>, a decimal point inside the digits or after
  \<open>0.\<close> and up to five zeros, and the exponent notation otherwise.
\<close>

definition numberToString :: "number \<Rightarrow> string" where
  "numberToString x =
     (if digits x = 0 then ''0''
      else
        (let s = natToString (digits x);
             k = int (length s);
             n = exponent x;
             magnitude =
               (if k \<le> n \<and> n \<le> 21 then s @ replicate (nat (n - k)) CHR ''0''
                else if 0 < n \<and> n \<le> 21 then take (nat n) s @ ''.'' @ drop (nat n) s
                else if -6 < n \<and> n \<le> 0 then ''0.'' @ replicate (nat (- n)) CHR ''0'' @ s
                else
                  (let e = (if n - 1 < 0 then ''-'' else ''+'') @ natToString (nat \<bar>n - 1\<bar>)
                   in if k = 1 then s @ ''e'' @ e
                      else take 1 s @ ''.'' @ drop 1 s @ ''e'' @ e))
         in if negative x then CHR ''-'' # magnitude else magnitude))"

text \<open>
  The values \<open>JSON.parse\<close> produces. An object is the list of its own properties, in
  property order.
\<close>

datatype jsvalue =
    JString string
  | JNumber number
  | JBool bool
  | JNull
  | JArray "jsvalue list"
  | JObject "(string \<times> jsvalue) list"

text \<open>The exceptions of the code: a thrown error is the left summand of a result.\<close>

datatype js_error = URIError | TypeError

definition andThen :: "'e + 'a \<Rightarrow> ('a \<Rightarrow> 'e + 'b) \<Rightarrow> 'e + 'b" where
  "andThen r f = (case r of Inl err \<Rightarrow> Inl err | Inr v \<Rightarrow> f v)"

text \<open>The results of a list of steps, or the first error among them.\<close>

fun collect :: "('e + 'a) list \<Rightarrow> 'e + 'a list" where
  "collect [] = Inr []"
| "collect (r # rs) = andThen r (\<lambda>v. andThen (collect rs) (\<lambda>vs. Inr (v # vs)))"

text \<open>\<open>arr.join(sep)\<close> on strings.\<close>

fun joinWith :: "string \<Rightarrow> string list \<Rightarrow> string" where
  "joinWith sep [] = []"
| "joinWith sep [x] = x"
| "joinWith sep (x # y # ys) = x @ sep @ joinWith sep (y # ys)"

text \<open>
  \<open>ToString\<close>, the string a value becomes inside a template literal. An array is
  \<open>join\<close>ed: its elements converted in turn and separated by commas, a \<open>null\<close>
  element empty. An object is converted by its \<open>toString\<close> method: the inherited one
  gives \<open>[object Object]\<close>; an own property of that name, which in a parsed value is
  never a function, hides it, the inherited \<open>valueOf\<close> gives the object back, and the
  conversion throws a \<open>TypeError\<close>.
\<close>

fun toString :: "jsvalue \<Rightarrow> js_error + string" where
  "toString (JString s) = Inr s"
| "toString (JNumber x) = Inr (numberToString x)"
| "toString (JBool b) = Inr (if b then ''true'' else ''false'')"
| "toString JNull = Inr ''null''"
| "toString (JArray vs) =
     andThen (collect (map (\<lambda>v. if v = JNull then Inr [] else toString v) vs))
       (\<lambda>elements. Inr (joinWith '','' elements))"
| "toString (JObject kvs) =
     (if ''toString'' \<in> set (map fst kvs) then Inl TypeError else Inr ''[object Object]'')"

text \<open>Truthiness; a missing property is \<open>undefined\<close>, here \<^const>\<open>None\<close>.\<close>

fun truthy :: "jsvalue option \<Rightarrow> bool" where
  "truthy None = False"
| "truthy (Some (JString s)) = (s \<noteq> [])"
| "truthy (Some (JNumber x)) = (digits x \<noteq> 0)"
| "truthy (Some (JBool b)) = b"
| "truthy (Some JNull) = False"
| "truthy (Some (JArray vs)) = True"
| "truthy (Some (JObject kvs)) = True"

section \<open>decodeURIComponent\<close>

text \<open>
  The built-in, as ECMAScript defines it: a \<open>%\<close> needs two hexadecimal digits after it;
  an octet below 128 is that character; any other octet must start a well-formed UTF-8
  sequence, each further octet again written \<open>%XX\<close>. Everything else is a
  \<open>URIError\<close>, here \<^const>\<open>None\<close>. A decoded character outside ASCII is kept as its
  UTF-8 octets: the result is only passed on to the network and to a log message.
\<close>

definition hexValue :: "char \<Rightarrow> nat option" where
  "hexValue c =
     (if inRange CHR ''0'' CHR ''9'' c then Some (charCode c - charCode CHR ''0'')
      else if inRange CHR ''a'' CHR ''f'' c then Some (charCode c - charCode CHR ''a'' + 10)
      else if inRange CHR ''A'' CHR ''F'' c then Some (charCode c - charCode CHR ''A'' + 10)
      else None)"

fun takeEscape :: "string \<Rightarrow> (nat \<times> string) option" where
  "takeEscape (p # h # l # rest) =
     (if p = CHR ''%'' then
        (case (hexValue h, hexValue l) of
           (Some a, Some b) \<Rightarrow> Some (16 * a + b, rest)
         | _ \<Rightarrow> None)
      else None)"
| "takeEscape _ = None"

fun takeEscapes :: "nat \<Rightarrow> string \<Rightarrow> (nat list \<times> string) option" where
  "takeEscapes 0 s = Some ([], s)"
| "takeEscapes (Suc n) s =
     (case takeEscape s of
        None \<Rightarrow> None
      | Some (b, r) \<Rightarrow>
          (case takeEscapes n r of
             None \<Rightarrow> None
           | Some (bs, r') \<Rightarrow> Some (b # bs, r')))"

definition leadingOnes :: "nat \<Rightarrow> nat" where
  "leadingOnes b =
     (if b < 0x80 then 0 else if b < 0xC0 then 1 else if b < 0xE0 then 2
      else if b < 0xF0 then 3 else if b < 0xF8 then 4 else 5)"

definition isCont :: "nat \<Rightarrow> bool" where
  "isCont b = (0x80 \<le> b \<and> b \<le> 0xBF)"

fun validUtf8 :: "nat list \<Rightarrow> bool" where
  "validUtf8 [a, b] = (0xC2 \<le> a \<and> a \<le> 0xDF \<and> isCont b)"
| "validUtf8 [a, b, c] =
     (isCont c \<and>
      ((a = 0xE0 \<and> 0xA0 \<le> b \<and> b \<le> 0xBF)
       \<or> (0xE1 \<le> a \<and> a \<le> 0xEC \<and> isCont b)
       \<or> (a = 0xED \<and> 0x80 \<le> b \<and> b \<le> 0x9F)
       \<or> (0xEE \<le> a \<and> a \<le> 0xEF \<and> isCont b)))"
| "validUtf8 [a, b, c, d] =
     (isCont c \<and> isCont d \<and>
      ((a = 0xF0 \<and> 0x90 \<le> b \<and> b \<le> 0xBF)
       \<or> (0xF1 \<le> a \<and> a \<le> 0xF3 \<and> isCont b)
       \<or> (a = 0xF4 \<and> 0x80 \<le> b \<and> b \<le> 0x8F)))"
| "validUtf8 _ = False"

lemma takeEscape_length: "takeEscape s = Some (b, r) \<Longrightarrow> length r < length s"
  by (cases s rule: takeEscape.cases) (auto split: if_splits option.splits)

lemma takeEscapes_length: "takeEscapes n s = Some (bs, r) \<Longrightarrow> length r \<le> length s"
proof (induction n arbitrary: s bs r)
  case 0
  then show ?case by simp
next
  case (Suc n)
  then show ?case
    by (fastforce split: option.splits dest: takeEscape_length)
qed

function decodeURIComponent :: "string \<Rightarrow> string option" where
  "decodeURIComponent [] = Some []"
| "decodeURIComponent (c # cs) =
     (if c \<noteq> CHR ''%'' then map_option (Cons c) (decodeURIComponent cs)
      else
        (case takeEscape (c # cs) of
           None \<Rightarrow> None
         | Some (b, rest) \<Rightarrow>
             (if leadingOnes b = 0 then map_option (Cons (char_of b)) (decodeURIComponent rest)
              else if leadingOnes b = 1 \<or> leadingOnes b > 4 then None
              else
                (case takeEscapes (leadingOnes b - 1) rest of
                   None \<Rightarrow> None
                 | Some (bs, rest') \<Rightarrow>
                     (if validUtf8 (b # bs)
                      then map_option (append (map char_of (b # bs))) (decodeURIComponent rest')
                      else None)))))"
  by pat_completeness auto
termination
proof (relation "measure length", goal_cases)
  case 1
  show ?case by simp
next
  case (2 c cs)
  then show ?case by simp
next
  case (3 c cs x2 b rest)
  then show ?case using takeEscape_length [of "c # cs" b rest] by simp
next
  case (4 c cs x2 b rest x2a bs rest')
  then show ?case
    using takeEscape_length [of "c # cs" b rest]
      takeEscapes_length [of "leadingOnes b - 1" rest bs rest'] by simp
qed

section \<open>The two regular expressions\<close>

text \<open>
  \<open>/https:\/\/proxy-prod\.omnivore-image-cache\.app\/.*?\/(https?.*)/\<close>: the leftmost
  place where the proxy prefix starts and, after the shortest run of characters of one line,
  \<open>/http\<close> follows. The captured group runs from that \<open>http\<close> to the end of the line.
  \<open>matchProxy\<close> is \<open>url.match(...)\<close> read at index 1: \<^const>\<open>None\<close> when there is no
  match; a captured group starts with \<open>http\<close> and so is never empty.
\<close>

definition proxyPrefix :: string where
  "proxyPrefix = ''https://proxy-prod.omnivore-image-cache.app/''"

fun lazyOriginal :: "string \<Rightarrow> string option" where
  "lazyOriginal [] = None"
| "lazyOriginal (c # cs) =
     (if prefix ''/http'' (c # cs) then Some (takeWhile (\<lambda>x. \<not> isLineTerminator x) cs)
      else if isLineTerminator c then None
      else lazyOriginal cs)"

fun matchProxy :: "string \<Rightarrow> string option" where
  "matchProxy [] = None"
| "matchProxy (c # cs) =
     (if prefix proxyPrefix (c # cs) then
        (case lazyOriginal (drop (length proxyPrefix) (c # cs)) of
           Some g \<Rightarrow> Some g
         | None \<Rightarrow> matchProxy cs)
      else matchProxy cs)"

text \<open>
  \<open>/!\[.*?\]\((https?:\/\/[^\s)]+)\)/g\<close>. After \<open>![\<close> the alternative text is the
  shortest run of characters of one line after which \<open>](\<close>, the scheme, the longest
  non-empty run of characters that are neither white space nor \<open>)\<close>, and a \<open>)\<close> follow.
  \<open>matchTail\<close> gives the captured URL and the text after the match.
\<close>

definition urlChar :: "char \<Rightarrow> bool" where
  "urlChar c = (\<not> isWhiteSpace c \<and> c \<noteq> CHR '')'')"

definition matchScheme :: "string \<Rightarrow> (string \<times> string) option" where
  "matchScheme s =
     (if prefix ''https://'' s then Some (''https://'', drop 8 s)
      else if prefix ''http://'' s then Some (''http://'', drop 7 s)
      else None)"

definition matchTail :: "string \<Rightarrow> (string \<times> string) option" where
  "matchTail s =
     (if prefix '']('' s then
        (case matchScheme (drop 2 s) of
           None \<Rightarrow> None
         | Some (scheme, r) \<Rightarrow>
             (if takeWhile urlChar r \<noteq> [] \<and> prefix '')'' (dropWhile urlChar r)
              then Some (scheme @ takeWhile urlChar r, tl (dropWhile urlChar r))
              else None))
      else None)"

fun lazyAlt :: "string \<Rightarrow> (string \<times> string) option" where
  "lazyAlt [] = None"
| "lazyAlt (c # cs) =
     (case matchTail (c # cs) of
        Some m \<Rightarrow> Some m
      | None \<Rightarrow> if isLineTerminator c then None else lazyAlt cs)"

lemma matchTail_length: "matchTail s = Some (u, r) \<Longrightarrow> length r < length s"
proof -
  assume m: "matchTail s = Some (u, r)"
  then obtain scheme r0 where sc: "matchScheme (drop 2 s) = Some (scheme, r0)"
    and r: "r = tl (dropWhile urlChar r0)" and two: "prefix ''](''  s"
    by (auto simp: matchTail_def split: if_splits option.splits)
  from sc have "length r0 \<le> length (drop 2 s)"
    by (auto simp: matchScheme_def split: if_splits)
  moreover have "length (dropWhile urlChar r0) \<le> length r0"
    by (rule length_dropWhile_le)
  moreover from two have "2 \<le> length s"
    by (auto simp: prefix_def)
  ultimately show ?thesis using r by simp
qed

lemma lazyAlt_length: "lazyAlt s = Some (u, r) \<Longrightarrow> length r < length s"
proof (induction s)
  case Nil
  then show ?case by simp
next
  case (Cons c cs)
  show ?case
  proof (cases "matchTail (c # cs)")
    case None
    with Cons show ?thesis by (auto split: if_splits)
  next
    case (Some m)
    with Cons.prems have "matchTail (c # cs) = Some (u, r)" by simp
    then show ?thesis by (rule matchTail_length)
  qed
qed

text \<open>\<open>[...markdown.matchAll(imageRegex)]\<close>, each match read at index 1.\<close>

function matchAll :: "string \<Rightarrow> string list" where
  "matchAll [] = []"
| "matchAll (c # cs) =
     (if prefix ''!['' (c # cs) then
        (case lazyAlt (tl cs) of
           Some (u, rest) \<Rightarrow> u # matchAll rest
         | None \<Rightarrow> matchAll cs)
      else matchAll cs)"
  by pat_completeness auto
termination
proof (relation "measure length", goal_cases)
  case 1
  show ?case by simp
next
  case (2 c cs)
  then show ?case by simp
next
  case (3 c cs x2 u rest)
  then have "lazyAlt (tl cs) = Some (u, rest)" by simp
  then have "length rest < length (tl cs)" by (rule lazyAlt_length)
  then show ?case by simp
next
  case (4 c cs)
  then show ?case by simp
qed

section \<open>The image download\<close>

type_synonym arrayBuffer = "nat list"

datatype severity = Info | Warning | Error

text \<open>
  What the code does besides returning: a call of \<open>fetchWithTimeout\<close> (with the place
  in \<open>downloadImage\<close> it is made from), \<open>emitProcessLog\<close> (the time stamp is left out),
  \<open>console.warn\<close> (its first argument), the \<open>imageDownloadProgress\<close> event, whose
  \<open>progress\<close> is \<open>(completed / total) * 100\<close> and is recorded as the two counters, and a
  call of the progress callback with \<open>currentFile\<close> and \<open>currentImage\<close>.
\<close>

datatype stage = ViaProxy | ViaOriginal | Direct

datatype event =
    Fetch stage string
  | ProcessLog severity string
  | ConsoleWarn string
  | ImageDownloadProgress nat nat string
  | ProgressCallback string "string option"

text \<open>
  The network is a parameter. \<open>fetchWithTimeout(url)\<close> either rejects (a network error,
  or the abort after the timeout) or gives a response with its \<open>ok\<close> flag;
  \<open>response.arrayBuffer()\<close> then gives the body, or rejects (\<^const>\<open>None\<close>).
  The three places where \<open>downloadImage\<close> fetches are told apart, so that two fetches of
  one URL may end differently.
\<close>

datatype fetch_outcome = Rejects | Response bool "arrayBuffer option"

type_synonym network = "stage \<Rightarrow> string \<Rightarrow> fetch_outcome"

text \<open>
  One \<open>try { ... } catch\<close> block of \<open>downloadImage\<close>: the log on success is emitted
  before the body is read, nothing is logged for a response that is not \<open>ok\<close>, and the
  catch clause logs with the block's severity and warns on the console.
\<close>

definition tryFetch ::
  "network \<Rightarrow> stage \<Rightarrow> string \<Rightarrow> string \<Rightarrow> severity \<Rightarrow> string \<Rightarrow> string \<Rightarrow> arrayBuffer option \<times> event list" where
  "tryFetch net st u okMsg sev failMsg warnMsg =
     (case net st u of
        Rejects \<Rightarrow> (None, [Fetch st u, ProcessLog sev failMsg, ConsoleWarn warnMsg])
      | Response ok body \<Rightarrow>
          (if ok then
             (case body of
                Some buffer \<Rightarrow> (Some buffer, [Fetch st u, ProcessLog Info okMsg])
              | None \<Rightarrow>
                  (None, [Fetch st u, ProcessLog Info okMsg, ProcessLog sev failMsg, ConsoleWarn warnMsg]))
           else (None, [Fetch st u])))"

definition tryProxy :: "network \<Rightarrow> string \<Rightarrow> arrayBuffer option \<times> event list" where
  "tryProxy net url =
     tryFetch net ViaProxy url
       (''Successfully downloaded image from proxy: '' @ url)
       Warning (''Failed to download from proxy URL: '' @ url)
       ''Failed to download from proxy URL:''"

definition tryOriginal :: "network \<Rightarrow> string \<Rightarrow> arrayBuffer option \<times> event list" where
  "tryOriginal net originalUrl =
     tryFetch net ViaOriginal originalUrl
       (''Successfully downloaded image from original URL: '' @ originalUrl)
       Warning (''Failed to download from original URL: '' @ originalUrl)
       ''Failed to download from original URL:''"

definition tryDirect :: "network \<Rightarrow> string \<Rightarrow> arrayBuffer option \<times> event list" where
  "tryDirect net url =
     tryFetch net Direct url
       (''Successfully downloaded image: '' @ url)
       Error (''Failed to download image: '' @ url)
       (''Failed to download image: '' @ url)"

text \<open>
  \<open>downloadImage\<close>: the value the promise settles with (\<^const>\<open>Inl\<close> when it rejects,
  \<open>Inr None\<close> for \<open>null\<close>) and the events emitted on the way.
\<close>

definition downloadImage :: "network \<Rightarrow> string \<Rightarrow> (js_error + arrayBuffer option) \<times> event list" where
  "downloadImage net url =
     (if sublist ''proxy-prod.omnivore-image-cache.app'' url then
        (case tryProxy net url of
           (Some buffer, ev1) \<Rightarrow> (Inr (Some buffer), ev1)
         | (None, ev1) \<Rightarrow>
             (case matchProxy url of
                None \<Rightarrow>
                  (case tryDirect net url of (r, ev3) \<Rightarrow> (Inr r, ev1 @ ev3))
              | Some m \<Rightarrow>
                  (case decodeURIComponent m of
                     None \<Rightarrow> (Inl URIError, ev1)
                   | Some originalUrl \<Rightarrow>
                       (case tryOriginal net originalUrl of
                          (Some buffer, ev2) \<Rightarrow> (Inr (Some buffer), ev1 @ ev2)
                        | (None, ev2) \<Rightarrow>
                            (case tryDirect net url of (r, ev3) \<Rightarrow> (Inr r, ev1 @ ev2 @ ev3))))))
      else (case tryDirect net url of (r, ev3) \<Rightarrow> (Inr r, ev3)))"

section \<open>Converting one article\<close>

text \<open>
  An \<open>ArticleMetadata\<close> object is the list of its entries, in the order
  \<open>Object.entries\<close> gives them. Reading a property takes the entry with that key;
  writing \<open>metadata.thumbnail\<close> replaces the value where the key stands.
\<close>

type_synonym metadata = "(string \<times> jsvalue) list"

definition getProp :: "metadata \<Rightarrow> string \<Rightarrow> jsvalue option" where
  "getProp md k = map_of md k"

text \<open>\<open>${v}\<close> for a property that may be missing.\<close>

definition template :: "jsvalue option \<Rightarrow> js_error + string" where
  "template v = (case v of None \<Rightarrow> Inr ''undefined'' | Some x \<Rightarrow> toString x)"

datatype downloadFailure =
  DownloadFailure (failedUrl: string) (failedFilename: string) (failedError: string)

text \<open>\<open>error.message\<close>; the text of a \<open>URIError\<close> is the engine's (here V8's).\<close>

definition errorMessage :: "js_error \<Rightarrow> string" where
  "errorMessage e = (case e of URIError \<Rightarrow> ''URI malformed'' | TypeError \<Rightarrow> ''not a function'')"

definition validImageExtensions :: "string list" where
  "validImageExtensions = [''jpg'', ''jpeg'', ''png'', ''gif'', ''webp'', ''svg'']"

text \<open>The extension both branches compute from a URL: \<open>split('.')\<close>, \<open>pop()\<close>,
  \<open>toLowerCase()\<close>, \<open>split(/[#?]/)[0]\<close>.\<close>

definition imageExtension :: "string \<Rightarrow> string" where
  "imageExtension u =
     (let urlParts = splitBy (\<lambda>c. c = CHR ''.'') u in
      if length urlParts > 1 then
        (let urlExt = hd (splitBy (\<lambda>c. c = CHR ''#'' \<or> c = CHR ''?'') (toLowerCase (last urlParts)))
         in if urlExt \<in> set validImageExtensions then urlExt else ''png'')
      else ''png'')"

text \<open>
  One dispatched download: whether it is the thumbnail, the URL handed to
  \<open>downloadImage\<close>, the text \<open>match[1]\<close> that a successful body image replaces (for the
  thumbnail, the URL again), and the file name.
\<close>

datatype task =
  Task (isThumbnail: bool) (taskUrl: string) (matchedText: string) (taskFilename: string)

definition thumbnailTask :: "string \<Rightarrow> string \<Rightarrow> task" where
  "thumbnailTask baseFilename thumbnailUrl =
     Task True thumbnailUrl thumbnailUrl
       (baseFilename @ ''-thumbnail.'' @ imageExtension thumbnailUrl)"

text \<open>\<open>imageUrl.split('?')[0]\<close>.\<close>

definition stripQuery :: "string \<Rightarrow> string" where
  "stripQuery m = hd (splitBy (\<lambda>c. c = CHR ''?'') m)"

definition bodyTask :: "string \<Rightarrow> nat \<Rightarrow> string \<Rightarrow> task" where
  "bodyTask baseFilename imageCounter m =
     (let imageUrl = stripQuery m;
          cleanBasename = cleanName baseFilename
      in Task False imageUrl m
           (cleanBasename @ ''-'' @ natToString imageCounter @ ''.'' @ imageExtension imageUrl))"

definition bodyTasks :: "string \<Rightarrow> string list \<Rightarrow> task list" where
  "bodyTasks baseFilename ms =
     map (\<lambda>(imageCounter, m). bodyTask baseFilename imageCounter m) (enumerate 1 ms)"

text \<open>The variables the promise callbacks of \<open>processMarkdownImages\<close> share, the
  metadata object they write to, and the events emitted so far.\<close>

record conversion =
  newMarkdown :: string
  images :: "(string \<times> arrayBuffer) list"
  failures :: "downloadFailure list"
  completed :: nat
  articleMetadata :: "metadata option"
  emitted :: "event list"

definition attachmentPath :: "string \<Rightarrow> string" where
  "attachmentPath name = ''./attachments/'' @ name"

text \<open>
  A download settles and its \<open>.then\<close> or \<open>.catch\<close> callback runs. The events of the
  download are put in front of the callback's own.
\<close>

definition settle :: "nat \<Rightarrow> network \<Rightarrow> task \<Rightarrow> conversion \<Rightarrow> conversion" where
  "settle totalImages net t s =
     (case downloadImage net (taskUrl t) of
        (Inr (Some buffer), evs) \<Rightarrow>
          (if isThumbnail t then
             s\<lparr>images := AList.update (taskFilename t) buffer (images s),
               articleMetadata :=
                 map_option (AList.update ''thumbnail'' (JString (attachmentPath (taskFilename t))))
                   (articleMetadata s),
               completed := completed s + 1,
               emitted := emitted s @ evs @
                 [ImageDownloadProgress (completed s + 1) totalImages (taskUrl t)]\<rparr>
           else
             s\<lparr>images := AList.update (taskFilename t) buffer (images s),
               newMarkdown :=
                 replaceFirst (matchedText t) (attachmentPath (taskFilename t)) (newMarkdown s),
               completed := completed s + 1,
               emitted := emitted s @ evs @
                 [ImageDownloadProgress (completed s + 1) totalImages (taskUrl t)]\<rparr>)
      | (Inr None, evs) \<Rightarrow>
          s\<lparr>failures := failures s @
               [DownloadFailure (taskUrl t) (taskFilename t) ''Download failed''],
            completed := completed s + 1,
            emitted := emitted s @ evs @
              [ConsoleWarn
                 ((if isThumbnail t then ''Keeping original URL for failed thumbnail download: ''
                   else ''Keeping original URL for failed download: '') @ taskUrl t),
               ImageDownloadProgress (completed s + 1) totalImages (taskUrl t)]\<rparr>
      | (Inl err, evs) \<Rightarrow>
          s\<lparr>failures := failures s @
               [DownloadFailure (taskUrl t) (taskFilename t) (errorMessage err)],
            completed := completed s + 1,
            emitted := emitted s @ evs @
              [ConsoleWarn
                 ((if isThumbnail t then ''Failed to process thumbnail ''
                   else ''Failed to process image '') @ taskUrl t @ '':'')]\<rparr>)"

text \<open>
  The downloads of one article run concurrently; each has its own network behaviour
  (\<open>networkOf\<close>, by position in dispatch order) and a time at which it settles
  (\<open>settledAt\<close>). The callbacks run one at a time, in the order of these times, downloads
  dispatched earlier first among equal times: every order of completion is the order of
  some \<open>settledAt\<close>.
\<close>

record imageEnv =
  networkOf :: "nat \<Rightarrow> network"
  settledAt :: "nat \<Rightarrow> nat"

definition completionOrder :: "imageEnv \<Rightarrow> task list \<Rightarrow> (nat \<times> task) list" where
  "completionOrder env ts = sort_key (\<lambda>(i, t). settledAt env i) (enumerate 0 ts)"

definition settleAll :: "imageEnv \<Rightarrow> nat \<Rightarrow> (nat \<times> task) list \<Rightarrow> conversion \<Rightarrow> conversion" where
  "settleAll env totalImages queue s =
     foldl (\<lambda>s (i, t). settle totalImages (networkOf env i) t s) s queue"

definition announce :: "task \<Rightarrow> event" where
  "announce t =
     ProgressCallback (if isThumbnail t then ''Processing thumbnail'' else ''Processing images'')
       (Some (taskUrl t))"

text \<open>
  The downloads \<open>processMarkdownImages\<close> dispatches, in dispatch order. A \<open>thumbnail\<close>
  that is truthy and not a string has no \<open>split\<close>: a \<open>TypeError\<close>.
\<close>

definition thumbnailOf :: "metadata option \<Rightarrow> jsvalue option" where
  "thumbnailOf metadata = (case metadata of None \<Rightarrow> None | Some md \<Rightarrow> getProp md ''thumbnail'')"

definition dispatched :: "string \<Rightarrow> string \<Rightarrow> metadata option \<Rightarrow> js_error + task list" where
  "dispatched markdown mdFilename metadata =
     (let baseFilename = stripSuffix ''.md'' mdFilename;
          body = bodyTasks baseFilename (matchAll markdown)
      in if truthy (thumbnailOf metadata) then
           (case thumbnailOf metadata of
              Some (JString thumbnailUrl) \<Rightarrow> Inr (thumbnailTask baseFilename thumbnailUrl # body)
            | _ \<Rightarrow> Inl TypeError)
         else Inr body)"

text \<open>\<open>total\<close>, the denominator of the progress.\<close>

definition totalOf :: "string \<Rightarrow> metadata option \<Rightarrow> nat" where
  "totalOf markdown metadata =
     length (matchAll markdown) + (if truthy (thumbnailOf metadata) then 1 else 0)"

definition processMarkdownImages ::
  "imageEnv \<Rightarrow> string \<Rightarrow> string \<Rightarrow> metadata option \<Rightarrow> js_error + conversion" where
  "processMarkdownImages env markdown mdFilename metadata =
     (let totalImages = totalOf markdown metadata
      in case dispatched markdown mdFilename metadata of
           Inl err \<Rightarrow> Inl err
         | Inr ts \<Rightarrow>
             Inr (settleAll env totalImages (completionOrder env ts)
                    \<lparr>newMarkdown = markdown, images = [], failures = [], completed = 0,
                     articleMetadata = metadata, emitted = map announce ts\<rparr>))"

text \<open>
  \<open>convertHtmlToMarkdown\<close>. \<open>createMarkdownContent\<close> is imported from a module that is
  not part of these sources and is a parameter. One line of the front matter is
  \<open>${key}: ${typeof value === "string" ? `"${value}"` : value}\<close>; the conversion of a
  value that is not a string may throw.
\<close>

definition fieldLine :: "string \<times> jsvalue \<Rightarrow> js_error + string" where
  "fieldLine kv =
     (case kv of (key, v) \<Rightarrow>
        andThen (case v of JString str \<Rightarrow> Inr (''\"'' @ str @ ''\"'') | _ \<Rightarrow> toString v)
          (\<lambda>text. Inr (key @ '': '' @ text)))"

definition yamlFrontMatter :: "metadata \<Rightarrow> js_error + string" where
  "yamlFrontMatter md =
     andThen (collect (map fieldLine md)) (\<lambda>lines. Inr (joinWith [CHR 0x0A] lines))"

text \<open>The text put in front of the Markdown: \<open>---\n${yamlFrontMatter}\n---\n\n\<close>.\<close>

definition frontMatterBlock :: "metadata \<Rightarrow> js_error + string" where
  "frontMatterBlock md =
     andThen (yamlFrontMatter md)
       (\<lambda>yaml. Inr (''---'' @ [CHR 0x0A] @ yaml @ [CHR 0x0A] @ ''---'' @ [CHR 0x0A, CHR 0x0A]))"

definition withFrontMatter :: "metadata option \<Rightarrow> string \<Rightarrow> js_error + string" where
  "withFrontMatter metadata markdown =
     (case metadata of
        None \<Rightarrow> Inr markdown
      | Some md \<Rightarrow> andThen (frontMatterBlock md) (\<lambda>block. Inr (block @ markdown)))"

text \<open>The log entry after the front matter, with \<open>${metadata.slug}\<close>.\<close>

definition addedFrontMatter :: "metadata option \<Rightarrow> js_error + event list" where
  "addedFrontMatter metadata =
     (case metadata of
        None \<Rightarrow> Inr []
      | Some md \<Rightarrow>
          andThen (template (getProp md ''slug''))
            (\<lambda>slug. Inr [ProcessLog Info (''Added YAML front matter for: '' @ slug)]))"

text \<open>\<open>${metadata?.slug || 'untitled'}\<close>.\<close>

definition slugOrUntitled :: "metadata option \<Rightarrow> js_error + string" where
  "slugOrUntitled metadata =
     (case metadata of
        None \<Rightarrow> Inr ''untitled''
      | Some md \<Rightarrow>
          if truthy (getProp md ''slug'') then template (getProp md ''slug'') else Inr ''untitled'')"

definition convertHtmlToMarkdown ::
  "(string \<Rightarrow> string \<Rightarrow> string) \<Rightarrow> imageEnv \<Rightarrow> string \<Rightarrow> string \<Rightarrow> metadata option
    \<Rightarrow> js_error + conversion" where
  "convertHtmlToMarkdown createMarkdownContent env htmlContent url metadata =
     andThen (withFrontMatter metadata (createMarkdownContent htmlContent url)) (\<lambda>markdown.
     andThen (addedFrontMatter metadata) (\<lambda>added.
     andThen (slugOrUntitled metadata) (\<lambda>slug.
     andThen (processMarkdownImages env markdown (slug @ ''.md'') metadata) (\<lambda>r.
       Inr (r\<lparr>emitted :=
                ProcessLog Info (''Starting conversion for URL: '' @ url) # added @ emitted r @
                [ProcessLog Info (''Completed conversion for URL: '' @ url)]\<rparr>)))))"

section \<open>Converting a batch\<close>

datatype content = Text string | Binary arrayBuffer

text \<open>A \<open>ConversionResult\<close>; \<open>binary\<close> is optional and absent for a Markdown document.\<close>

datatype conversionResult =
  ConversionResult (filename: string) (payload: content) (binary: "bool option")

text \<open>
  What \<open>processZipContent\<close> builds up: \<open>results\<close>, \<open>allImages\<close>, \<open>failures\<close> (both
  objects as their entries in property order), the metadata objects, and the events.
\<close>

record batch =
  results :: "conversionResult list"
  allImages :: "(string \<times> arrayBuffer) list"
  failuresOf :: "(string \<times> downloadFailure list) list"
  metadataList :: "metadata list"
  logged :: "event list"

text \<open>\<open>Object.assign(target, source)\<close>.\<close>

definition assign :: "('k \<times> 'v) list \<Rightarrow> ('k \<times> 'v) list \<Rightarrow> ('k \<times> 'v) list" where
  "assign target source = foldl (\<lambda>acc (k, v). AList.update k v acc) target source"

text \<open>\<open>metadata.find((m) => m.slug === slug)\<close>, as the position of the object found.\<close>

fun findSlug :: "string \<Rightarrow> metadata list \<Rightarrow> nat option" where
  "findSlug slug [] = None"
| "findSlug slug (m # ms) =
     (if getProp m ''slug'' = Some (JString slug) then Some 0
      else map_option Suc (findSlug slug ms))"

definition slugOfFile :: "string \<Rightarrow> string" where
  "slugOfFile file =
     (let popped = last (splitBy (\<lambda>c. c = CHR ''/'') file);
          baseFilename = (if popped = [] then file else popped)
      in stripSuffix ''.html'' baseFilename)"

text \<open>
  One turn of the loop over \<open>Object.entries(htmlFiles)\<close>. The URL handed on is the
  metadata's \<open>url\<close>, declared a string: it is the string the template literals of
  \<open>convertHtmlToMarkdown\<close> make of it, the first of them before anything else is done.
\<close>

definition urlOf :: "metadata \<Rightarrow> js_error + string" where
  "urlOf md = template (getProp md ''url'')"

definition processFile ::
  "(string \<Rightarrow> string \<Rightarrow> string) \<Rightarrow> imageEnv \<Rightarrow> string \<times> string \<Rightarrow> batch \<Rightarrow> js_error + batch" where
  "processFile createMarkdownContent env entry b =
     (case entry of (file, htmlContent) \<Rightarrow>
        (let slug = slugOfFile file;
             mdFilename = slug @ ''.md'';
             start = [ProcessLog Info (''Processing file: '' @ mdFilename),
                      ProgressCallback mdFilename None]
         in case findSlug slug (metadataList b) of
              None \<Rightarrow>
                Inr (b\<lparr>logged := logged b @ start @
                         [ProcessLog Warning (''No metadata found for '' @ file),
                          ConsoleWarn (''No metadata found for '' @ file)]\<rparr>)
            | Some i \<Rightarrow>
                (case andThen (urlOf (metadataList b ! i))
                        (\<lambda>url. convertHtmlToMarkdown createMarkdownContent env htmlContent
                                  url (Some (metadataList b ! i))) of
                   Inl err \<Rightarrow> Inl err
                 | Inr r \<Rightarrow>
                     Inr (b\<lparr>results := results b @
                              [ConversionResult mdFilename (Text (newMarkdown r)) None],
                            allImages := assign (allImages b) (images r),
                            failuresOf :=
                              (if length (failures r) > 0
                               then AList.update mdFilename (failures r) (failuresOf b)
                               else failuresOf b),
                            metadataList :=
                              (case articleMetadata r of
                                 None \<Rightarrow> metadataList b
                               | Some md \<Rightarrow> (metadataList b)[i := md]),
                            logged := logged b @ start @ emitted r @
                              (if length (failures r) > 0
                               then [ProcessLog Warning
                                       (natToString (length (failures r))
                                        @ '' image download failures in '' @ mdFilename)]
                               else [])
                              @ [ProcessLog Info (''Successfully processed '' @ mdFilename)]\<rparr>))))"

text \<open>The loop; a rejected conversion rejects the whole run. Each file has its own
  environment, by position.\<close>

fun processFiles ::
  "(string \<Rightarrow> string \<Rightarrow> string) \<Rightarrow> (nat \<Rightarrow> imageEnv) \<Rightarrow> nat \<Rightarrow> (string \<times> string) list \<Rightarrow> batch
    \<Rightarrow> js_error + batch" where
  "processFiles createMarkdownContent world k [] b = Inr b"
| "processFiles createMarkdownContent world k (entry # entries) b =
     (case processFile createMarkdownContent (world k) entry b of
        Inl err \<Rightarrow> Inl err
      | Inr b' \<Rightarrow> processFiles createMarkdownContent world (Suc k) entries b')"

definition imageResults :: "(string \<times> arrayBuffer) list \<Rightarrow> conversionResult list" where
  "imageResults imgs =
     map (\<lambda>(name, buffer). ConversionResult (''attachments/'' @ name) (Binary buffer) (Some True)) imgs"

text \<open>\<open>processZipContent\<close>: \<open>htmlFiles\<close> is the list \<open>Object.entries(htmlFiles)\<close>.\<close>

definition processZipContent ::
  "(string \<Rightarrow> string \<Rightarrow> string) \<Rightarrow> (nat \<Rightarrow> imageEnv) \<Rightarrow> (string \<times> string) list \<Rightarrow> metadata list
    \<Rightarrow> js_error + batch" where
  "processZipContent createMarkdownContent world htmlFiles metadata =
     (case processFiles createMarkdownContent world 0 htmlFiles
             \<lparr>results = [], allImages = [], failuresOf = [], metadataList = metadata,
              logged = [ProcessLog Info
                          (''Starting to process '' @ natToString (length htmlFiles) @ '' files'')]\<rparr> of
        Inl err \<Rightarrow> Inl err
      | Inr b \<Rightarrow>
          Inr (b\<lparr>results := results b @ imageResults (allImages b),
                 logged := logged b @
                   [ProcessLog Info
                      (''Completed processing all files. Total images: ''
                       @ natToString (length (allImages b)))]\<rparr>))"

section \<open>Reading the trace of a download\<close>

text \<open>
  The attempts in a trace: each call of \<open>fetchWithTimeout\<close> with the events up to the
  next call.
\<close>

fun isFetch :: "event \<Rightarrow> bool" where
  "isFetch (Fetch st u) = True"
| "isFetch _ = False"

fun attemptsOf :: "event list \<Rightarrow> (stage \<times> string \<times> event list) list" where
  "attemptsOf [] = []"
| "attemptsOf (Fetch st u # es) =
     (st, u, takeWhile (\<lambda>e. \<not> isFetch e) es) # attemptsOf es"
| "attemptsOf (e # es) = attemptsOf es"

text \<open>
  What an attempt emits after its fetch: on a successful response the info log; when the
  fetch is rejected, a warning for the proxy and the original URL and an error for the
  direct download, with a console warning; when the body of a successful response cannot
  be read, both; on a response that is not \<open>ok\<close>, nothing.
\<close>

definition successEvent :: "stage \<Rightarrow> string \<Rightarrow> event" where
  "successEvent st u =
     ProcessLog Info
       ((case st of
           ViaProxy \<Rightarrow> ''Successfully downloaded image from proxy: ''
         | ViaOriginal \<Rightarrow> ''Successfully downloaded image from original URL: ''
         | Direct \<Rightarrow> ''Successfully downloaded image: '') @ u)"

definition failureEvents :: "stage \<Rightarrow> string \<Rightarrow> event list" where
  "failureEvents st u =
     (case st of
        ViaProxy \<Rightarrow>
          [ProcessLog Warning (''Failed to download from proxy URL: '' @ u),
           ConsoleWarn ''Failed to download from proxy URL:'']
      | ViaOriginal \<Rightarrow>
          [ProcessLog Warning (''Failed to download from original URL: '' @ u),
           ConsoleWarn ''Failed to download from original URL:'']
      | Direct \<Rightarrow>
          [ProcessLog Error (''Failed to download image: '' @ u),
           ConsoleWarn (''Failed to download image: '' @ u)])"

definition attemptEvents :: "network \<Rightarrow> stage \<Rightarrow> string \<Rightarrow> event list" where
  "attemptEvents net st u =
     (case net st u of
        Rejects \<Rightarrow> failureEvents st u
      | Response ok body \<Rightarrow>
          (if ok then
             (case body of
                Some buffer \<Rightarrow> [successEvent st u]
              | None \<Rightarrow> successEvent st u # failureEvents st u)
           else []))"

text \<open>The trace of a sequence of attempts.\<close>

definition attemptTrace :: "network \<Rightarrow> (stage \<times> string) list \<Rightarrow> event list" where
  "attemptTrace net atts = concat (map (\<lambda>(st, u). Fetch st u # attemptEvents net st u) atts)"

section \<open>Auxiliary notions for the properties\<close>

text \<open>A network on which every request is answered with a status that is not a success,
  and an article environment over it.\<close>

definition failingNetwork :: network where
  "failingNetwork = (\<lambda>st u. Response False None)"

definition failingEnv :: imageEnv where
  "failingEnv = \<lparr>networkOf = (\<lambda>i. failingNetwork), settledAt = (\<lambda>i. 0)\<rparr>"

text \<open>Reading a decimal numeral back.\<close>

definition digitsValue :: "string \<Rightarrow> nat" where
  "digitsValue s = foldl (\<lambda>acc c. 10 * acc + (charCode c - 48)) 0 s"

definition isDigit :: "char \<Rightarrow> bool" where
  "isDigit c = inRange CHR ''0'' CHR ''9'' c"

text \<open>The downloads of body images among the dispatched ones.\<close>

definition bodyOnly :: "task list \<Rightarrow> task list" where
  "bodyOnly ts = filter (\<lambda>t. \<not> isThumbnail t) ts"

text \<open>A download that leaves a given front of the Markdown alone when it settles.\<close>

definition sparesFront :: "string \<Rightarrow> task \<Rightarrow> bool" where
  "sparesFront F t = (isThumbnail t \<or> (\<not> sublist (matchedText t) F \<and> CHR 0x0A \<notin> set (matchedText t)))"

text \<open>The first fetch of a download: through the proxy for a proxy URL, of the URL itself
  otherwise.\<close>

definition firstFetch :: "string \<Rightarrow> event" where
  "firstFetch url =
     Fetch (if sublist ''proxy-prod.omnivore-image-cache.app'' url then ViaProxy else Direct) url"

text \<open>A network on which every request succeeds with the same three bytes, and an article
  environment over it.\<close>

definition succeedingNetwork :: network where
  "succeedingNetwork = (\<lambda>st u. Response True (Some [1, 2, 3]))"

definition succeedingEnv :: imageEnv where
  "succeedingEnv = \<lparr>networkOf = (\<lambda>i. succeedingNetwork), settledAt = (\<lambda>i. 0)\<rparr>"

text \<open>An article environment in which every download succeeds and the first one dispatched
  settles last.\<close>

definition lateFirstEnv :: imageEnv where
  "lateFirstEnv =
     \<lparr>networkOf = (\<lambda>i. succeedingNetwork), settledAt = (\<lambda>i. if i = 0 then 1 else 0)\<rparr>"

text \<open>A download that ends with the bytes of the image.\<close>

definition succeeds :: "network \<Rightarrow> task \<Rightarrow> bool" where
  "succeeds net t =
     (case fst (downloadImage net (taskUrl t)) of Inr (Some buffer) \<Rightarrow> True | _ \<Rightarrow> False)"

text \<open>The rewriting a successful body download does, and those of a queue of downloads.\<close>

definition rewrite :: "string \<Rightarrow> task \<Rightarrow> string" where
  "rewrite markdown t = replaceFirst (matchedText t) (attachmentPath (taskFilename t)) markdown"

definition rewritesOf :: "imageEnv \<Rightarrow> (nat \<times> task) list \<Rightarrow> task list" where
  "rewritesOf env q =
     map snd (filter (\<lambda>(i, t). succeeds (networkOf env i) t \<and> \<not> isThumbnail t) q)"

definition storedBy :: "imageEnv \<Rightarrow> (nat \<times> task) list \<Rightarrow> string list" where
  "storedBy env q =
     map (\<lambda>(i, t). taskFilename t) (filter (\<lambda>(i, t). succeeds (networkOf env i) t) q)"

text \<open>Two metadata objects that agree on every property but \<open>thumbnail\<close>.\<close>

definition sameButThumbnail :: "metadata \<Rightarrow> metadata \<Rightarrow> bool" where
  "sameButThumbnail md md' = (\<forall>k. k \<noteq> ''thumbnail'' \<longrightarrow> getProp md' k = getProp md k)"

text \<open>Two batches with the same output: all but the events.\<close>

definition sameOutput :: "batch \<Rightarrow> batch \<Rightarrow> bool" where
  "sameOutput b b' =
     (results b = results b' \<and> allImages b = allImages b' \<and> failuresOf b = failuresOf b'
      \<and> metadataList b = metadataList b')"

text \<open>The environments of a run in which the file at position \<open>n\<close> is left out.\<close>

definition skipAt :: "nat \<Rightarrow> (nat \<Rightarrow> imageEnv) \<Rightarrow> nat \<Rightarrow> imageEnv" where
  "skipAt n world k = (if k < n then world k else world (Suc k))"

definition noMetadataEvents :: "string \<Rightarrow> event list" where
  "noMetadataEvents file =
     [ProcessLog Info (''Processing file: '' @ slugOfFile file @ ''.md''),
      ProgressCallback (slugOfFile file @ ''.md'') None,
      ProcessLog Warning (''No metadata found for '' @ file),
      ConsoleWarn (''No metadata found for '' @ file)]"

text \<open>A result that is the binary attachment of a given name.\<close>

definition isAttachment :: "string \<Rightarrow> conversionResult \<Rightarrow> bool" where
  "isAttachment name c = (filename c = ''attachments/'' @ name \<and> binary c = Some True)"

text \<open>The results of the loop are documents; the keys of \<open>allImages\<close> are distinct.\<close>

definition documentsOnly :: "batch \<Rightarrow> bool" where
  "documentsOnly b = ((\<forall>c \<in> set (results b). binary c = None) \<and> distinct (map fst (allImages b)))"

text \<open>The names of the documents of a list of files, and the shape of an image name.\<close>

definition mdNames :: "(string \<times> string) list \<Rightarrow> string list" where
  "mdNames es = map (\<lambda>e. slugOfFile (fst e) @ ''.md'') es"

definition imageName :: "string \<Rightarrow> bool" where
  "imageName n = (\<exists>a e. n = a @ ''.'' @ e \<and> e \<in> set validImageExtensions)"

text \<open>Every key of \<open>allImages\<close> has the shape of an image name.\<close>

definition imagesNamed :: "batch \<Rightarrow> bool" where
  "imagesNamed b = (\<forall>k \<in> fst ` set (allImages b). imageName k)"

section \<open>Properties of the image download\<close>

lemma andThen_Inr: "andThen r f = Inr y \<longleftrightarrow> (\<exists>v. r = Inr v \<and> f v = Inr y)"
  by (cases r) (simp_all add: andThen_def)

lemma andThen_Inl: "andThen r f = Inl e \<longleftrightarrow> r = Inl e \<or> (\<exists>v. r = Inr v \<and> f v = Inl e)"
  by (cases r) (simp_all add: andThen_def)

lemma collect_Inr: "collect rs = Inr vs \<longleftrightarrow> rs = map Inr vs"
proof (induction rs arbitrary: vs)
  case Nil
  show ?case by auto
next
  case (Cons r rs)
  show ?case by (cases vs) (auto simp: andThen_Inr Cons.IH)
qed

lemma tryProxy_events:
  "snd (tryProxy net u) = Fetch ViaProxy u # attemptEvents net ViaProxy u"
  by (simp add: tryProxy_def tryFetch_def attemptEvents_def successEvent_def failureEvents_def
      split: fetch_outcome.split option.split)

lemma tryOriginal_events:
  "snd (tryOriginal net u) = Fetch ViaOriginal u # attemptEvents net ViaOriginal u"
  by (simp add: tryOriginal_def tryFetch_def attemptEvents_def successEvent_def failureEvents_def
      split: fetch_outcome.split option.split)

lemma tryDirect_events:
  "snd (tryDirect net u) = Fetch Direct u # attemptEvents net Direct u"
  by (simp add: tryDirect_def tryFetch_def attemptEvents_def successEvent_def failureEvents_def
      split: fetch_outcome.split option.split)

lemma attemptEvents_noFetch: "e \<in> set (attemptEvents net st u) \<Longrightarrow> \<not> isFetch e"
  by (cases st) (auto simp: attemptEvents_def successEvent_def failureEvents_def
      split: fetch_outcome.splits option.splits if_splits)

lemma attemptsOf_noFetch: "\<forall>e \<in> set es. \<not> isFetch e \<Longrightarrow> attemptsOf (es @ rest) = attemptsOf rest"
proof (induction es)
  case Nil
  then show ?case by simp
next
  case (Cons e es)
  then show ?case by (cases e) auto
qed

lemma takeWhile_noFetch:
  "\<forall>e \<in> set es. \<not> isFetch e \<Longrightarrow>
   takeWhile (\<lambda>e. \<not> isFetch e) (es @ Fetch st u # rest) = es"
  by (induction es) auto

lemma takeWhile_noFetch_all:
  "\<forall>e \<in> set es. \<not> isFetch e \<Longrightarrow> takeWhile (\<lambda>e. \<not> isFetch e) es = es"
  by (induction es) auto

lemma attemptsOf_attemptTrace:
  "attemptsOf (attemptTrace net atts) = map (\<lambda>(st, u). (st, u, attemptEvents net st u)) atts"
proof (induction atts)
  case Nil
  then show ?case by (simp add: attemptTrace_def)
next
  case (Cons a atts)
  obtain st u where a: "a = (st, u)" by (cases a)
  have nf: "\<forall>e \<in> set (attemptEvents net st u). \<not> isFetch e"
    using attemptEvents_noFetch by blast
  have tr: "attemptTrace net (a # atts) = Fetch st u # attemptEvents net st u @ attemptTrace net atts"
    by (simp add: attemptTrace_def a)
  have tw: "takeWhile (\<lambda>e. \<not> isFetch e) (attemptEvents net st u @ attemptTrace net atts)
            = attemptEvents net st u"
  proof (cases atts)
    case Nil
    then show ?thesis using nf by (simp add: attemptTrace_def takeWhile_noFetch_all)
  next
    case (Cons b bs)
    obtain st' u' where "b = (st', u')" by (cases b)
    with Cons have "attemptTrace net atts
        = Fetch st' u' # (attemptEvents net st' u' @ attemptTrace net bs)"
      by (simp add: attemptTrace_def)
    then show ?thesis using nf takeWhile_noFetch by simp
  qed
  have "attemptsOf (attemptTrace net (a # atts))
      = (st, u, attemptEvents net st u) # attemptsOf (attemptEvents net st u @ attemptTrace net atts)"
    by (simp only: tr attemptsOf.simps tw)
  also have "attemptsOf (attemptEvents net st u @ attemptTrace net atts)
      = attemptsOf (attemptTrace net atts)"
    using nf by (rule attemptsOf_noFetch)
  finally show ?case using Cons.IH by (simp add: a)
qed

text \<open>The attempts a download makes.\<close>

lemma downloadImage_trace:
  "\<exists>atts. snd (downloadImage net url) = attemptTrace net atts
    \<and> map fst atts \<in> {[Direct], [ViaProxy], [ViaProxy, Direct], [ViaProxy, ViaOriginal],
                        [ViaProxy, ViaOriginal, Direct]}
    \<and> (fst (downloadImage net url) = Inr None \<longrightarrow> fst (last atts) = Direct)"
proof -
  obtain r1 e1 where p: "tryProxy net url = (r1, e1)" by (cases "tryProxy net url")
  obtain r3 e3 where d: "tryDirect net url = (r3, e3)" by (cases "tryDirect net url")
  have e1: "e1 = Fetch ViaProxy url # attemptEvents net ViaProxy url"
    using tryProxy_events [of net url] p by simp
  have e3: "e3 = Fetch Direct url # attemptEvents net Direct url"
    using tryDirect_events [of net url] d by simp
  show ?thesis
  proof (cases "sublist ''proxy-prod.omnivore-image-cache.app'' url")
    case False
    then have "downloadImage net url = (Inr r3, e3)"
      by (simp add: downloadImage_def d)
    then show ?thesis
      by (intro exI [of _ "[(Direct, url)]"]) (simp add: attemptTrace_def e3)
  next
    case True
    show ?thesis
    proof (cases r1)
      case (Some buffer)
      then have "downloadImage net url = (Inr (Some buffer), e1)"
        using True by (simp add: downloadImage_def p)
      then show ?thesis
        by (intro exI [of _ "[(ViaProxy, url)]"]) (simp add: attemptTrace_def e1)
    next
      case None
      show ?thesis
      proof (cases "matchProxy url")
        case nm: None
        then have "downloadImage net url = (Inr r3, e1 @ e3)"
          using True None by (simp add: downloadImage_def p d)
        then show ?thesis
          by (intro exI [of _ "[(ViaProxy, url), (Direct, url)]"]) (simp add: attemptTrace_def e1 e3)
      next
        case (Some m)
        show ?thesis
        proof (cases "decodeURIComponent m")
          case nd: None
          then have "downloadImage net url = (Inl URIError, e1)"
            using True None Some by (simp add: downloadImage_def p)
          then show ?thesis
            by (intro exI [of _ "[(ViaProxy, url)]"]) (simp add: attemptTrace_def e1)
        next
          case sd: (Some originalUrl)
          obtain r2 e2 where o: "tryOriginal net originalUrl = (r2, e2)"
            by (cases "tryOriginal net originalUrl")
          have e2: "e2 = Fetch ViaOriginal originalUrl # attemptEvents net ViaOriginal originalUrl"
            using tryOriginal_events [of net originalUrl] o by simp
          show ?thesis
          proof (cases r2)
            case s2: (Some buffer)
            then have "downloadImage net url = (Inr (Some buffer), e1 @ e2)"
              using True None Some sd by (simp add: downloadImage_def p o)
            then show ?thesis
              by (intro exI [of _ "[(ViaProxy, url), (ViaOriginal, originalUrl)]"])
                (simp add: attemptTrace_def e1 e2)
          next
            case n2: None
            then have "downloadImage net url = (Inr r3, e1 @ e2 @ e3)"
              using True None Some sd by (simp add: downloadImage_def p o d)
            then show ?thesis
              by (intro exI [of _ "[(ViaProxy, url), (ViaOriginal, originalUrl), (Direct, url)]"])
                (simp add: attemptTrace_def e1 e2 e3)
          qed
        qed
      qed
    qed
  qed
qed

text \<open>When a download rejects, and when it returns the bytes of the image.\<close>

lemma downloadImage_rejects_iff:
  "fst (downloadImage net url) = Inl e \<longleftrightarrow>
     e = URIError \<and> sublist ''proxy-prod.omnivore-image-cache.app'' url
     \<and> fst (tryProxy net url) = None
     \<and> (\<exists>m. matchProxy url = Some m \<and> decodeURIComponent m = None)"
  by (auto simp: downloadImage_def split: prod.splits option.splits)

lemma downloadImage_returns_buffer_iff:
  "fst (downloadImage net url) = Inr (Some buffer) \<longleftrightarrow>
     (if sublist ''proxy-prod.omnivore-image-cache.app'' url then
        fst (tryProxy net url) = Some buffer
        \<or> (fst (tryProxy net url) = None
            \<and> (case matchProxy url of
                  None \<Rightarrow> fst (tryDirect net url) = Some buffer
                | Some m \<Rightarrow>
                    (case decodeURIComponent m of
                       None \<Rightarrow> False
                     | Some originalUrl \<Rightarrow>
                         fst (tryOriginal net originalUrl) = Some buffer
                         \<or> (fst (tryOriginal net originalUrl) = None
                             \<and> fst (tryDirect net url) = Some buffer))))
      else fst (tryDirect net url) = Some buffer)"
  by (auto simp: downloadImage_def split: prod.splits option.splits)

lemma tryFetch_buffer:
  "fst (tryFetch net st u okMsg sev failMsg warnMsg) = Some buffer
     \<longleftrightarrow> net st u = Response True (Some buffer)"
  by (auto simp: tryFetch_def split: fetch_outcome.splits option.splits if_splits)

text \<open>
  C5. The claim: the image download never throws. On a proxy URL whose embedded original
  URL holds a malformed escape, once the fetch through the proxy has failed,
  \<open>decodeURIComponent\<close> throws outside every \<open>try\<close> block and the promise rejects.
\<close>

theorem downloadImage_rejects_malformed_escape:
  "downloadImage (\<lambda>st u. Response False None)
     ''https://proxy-prod.omnivore-image-cache.app/0x0/https://e.com/100%.png''
   = (Inl URIError,
      [Fetch ViaProxy ''https://proxy-prod.omnivore-image-cache.app/0x0/https://e.com/100%.png''])"
  by code_simp

text \<open>
  C4, as the claim states it: every attempt emits exactly one log entry. A direct
  download answered with a status that is not a success is the final attempt, fails, and
  emits nothing.
\<close>

theorem downloadImage_silent_failure:
  "downloadImage (\<lambda>st u. Response False None) ''https://e.com/a.png''
     = (Inr None, [Fetch Direct ''https://e.com/a.png''])
   \<and> attemptsOf (snd (downloadImage (\<lambda>st u. Response False None) ''https://e.com/a.png''))
     = [(Direct, ''https://e.com/a.png'', [])]"
  by code_simp

text \<open>
  C4, amended. Every attempt of a download emits the events of \<^const>\<open>attemptEvents\<close>:
  one info log when it succeeds, a warning (through the proxy, from the original URL) or
  an error (the direct download) when its fetch is rejected, nothing when the response is
  not a success, each log with the URL attempted. The direct download is always the last
  attempt, and it is the last one whenever the result is \<open>null\<close>. The fetches and these
  events are all the download does.
\<close>

theorem downloadImage_attempt_events:
  "(\<forall>(st, u, evs) \<in> set (attemptsOf (snd (downloadImage net url))). evs = attemptEvents net st u)
   \<and> map fst (attemptsOf (snd (downloadImage net url)))
       \<in> {[Direct], [ViaProxy], [ViaProxy, Direct], [ViaProxy, ViaOriginal],
          [ViaProxy, ViaOriginal, Direct]}
   \<and> (fst (downloadImage net url) = Inr None
        \<longrightarrow> fst (last (attemptsOf (snd (downloadImage net url)))) = Direct)
   \<and> snd (downloadImage net url)
       = concat (map (\<lambda>(st, u, evs). Fetch st u # evs) (attemptsOf (snd (downloadImage net url))))"
proof -
  obtain atts where tr: "snd (downloadImage net url) = attemptTrace net atts"
    and stages: "map fst atts \<in> {[Direct], [ViaProxy], [ViaProxy, Direct], [ViaProxy, ViaOriginal],
                        [ViaProxy, ViaOriginal, Direct]}"
    and final: "fst (downloadImage net url) = Inr None \<longrightarrow> fst (last atts) = Direct"
    using downloadImage_trace [of net url] by (elim exE conjE) (rule that)
  let ?as = "map (\<lambda>(st, u). (st, u, attemptEvents net st u)) atts"
  have as: "attemptsOf (snd (downloadImage net url)) = ?as"
    by (simp only: tr attemptsOf_attemptTrace)
  have ne: "atts \<noteq> []"
  proof
    assume "atts = []"
    with stages show False by simp
  qed
  have 1: "\<forall>(st, u, evs) \<in> set ?as. evs = attemptEvents net st u"
    by (clarsimp simp: image_iff)
  have 2: "map fst ?as = map fst atts"
    by (induction atts) (simp_all add: case_prod_beta)
  have 3: "fst (last ?as) = fst (last atts)"
    using ne by (simp add: last_map case_prod_beta)
  have 4: "attemptTrace net atts = concat (map (\<lambda>(st, u, evs). Fetch st u # evs) ?as)"
    unfolding attemptTrace_def by (induction atts) (simp_all add: case_prod_beta)
  have c1: "\<forall>(st, u, evs) \<in> set (attemptsOf (snd (downloadImage net url))).
              evs = attemptEvents net st u"
    using 1 by (simp only: as)
  have c2: "map fst (attemptsOf (snd (downloadImage net url)))
       \<in> {[Direct], [ViaProxy], [ViaProxy, Direct], [ViaProxy, ViaOriginal],
          [ViaProxy, ViaOriginal, Direct]}"
    using stages by (simp only: as 2)
  have c3: "fst (downloadImage net url) = Inr None
        \<longrightarrow> fst (last (attemptsOf (snd (downloadImage net url)))) = Direct"
    using final by (simp only: as 3)
  have c4: "snd (downloadImage net url)
       = concat (map (\<lambda>(st, u, evs). Fetch st u # evs) (attemptsOf (snd (downloadImage net url))))"
  proof -
    have e: "snd (downloadImage net url)
        = concat (map (\<lambda>(st, u, evs). Fetch st u # evs) ?as)"
      using 4 by (simp only: tr)
    show ?thesis unfolding as by (rule e)
  qed
  from c1 c2 c3 c4 show ?thesis by blast
qed

theorem downloadImage_attempt_events_witness:
  "(Direct, ''https://e.com/a.png'',
      [ProcessLog Error ''Failed to download image: https://e.com/a.png'',
       ConsoleWarn ''Failed to download image: https://e.com/a.png''])
     \<in> set (attemptsOf (snd (downloadImage (\<lambda>st u. Rejects) ''https://e.com/a.png'')))
   \<and> attemptEvents (\<lambda>st u. Rejects) Direct ''https://e.com/a.png''
     = [ProcessLog Error ''Failed to download image: https://e.com/a.png'',
        ConsoleWarn ''Failed to download image: https://e.com/a.png'']
   \<and> fst (downloadImage (\<lambda>st u. Rejects) ''https://e.com/a.png'') = Inr None
   \<and> fst (last (attemptsOf (snd (downloadImage (\<lambda>st u. Rejects) ''https://e.com/a.png''))))
     = Direct"
proof -
  have m: "attemptsOf (snd (downloadImage (\<lambda>st u. Rejects) ''https://e.com/a.png''))
      = [(Direct, ''https://e.com/a.png'',
          [ProcessLog Error ''Failed to download image: https://e.com/a.png'',
           ConsoleWarn ''Failed to download image: https://e.com/a.png''])]"
    by code_simp
  have n: "fst (downloadImage (\<lambda>st u. Rejects) ''https://e.com/a.png'') = Inr None"
    by code_simp
  note t = downloadImage_attempt_events [of "\<lambda>st u. Rejects" "''https://e.com/a.png''"]
  from t have 1: "\<forall>(st, u, evs) \<in> set (attemptsOf (snd (downloadImage (\<lambda>st u. Rejects)
      ''https://e.com/a.png''))). evs = attemptEvents (\<lambda>st u. Rejects) st u"
    by (rule conjunct1)
  from t have 3: "fst (downloadImage (\<lambda>st u. Rejects) ''https://e.com/a.png'') = Inr None
      \<longrightarrow> fst (last (attemptsOf (snd (downloadImage (\<lambda>st u. Rejects) ''https://e.com/a.png''))))
        = Direct"
    by (elim conjE)
  from 3 n have l: "fst (last (attemptsOf (snd (downloadImage (\<lambda>st u. Rejects)
      ''https://e.com/a.png'')))) = Direct" by (rule mp)
  from 1 have e: "attemptEvents (\<lambda>st u. Rejects) Direct ''https://e.com/a.png''
     = [ProcessLog Error ''Failed to download image: https://e.com/a.png'',
        ConsoleWarn ''Failed to download image: https://e.com/a.png'']"
    unfolding m by simp
  have mem: "(Direct, ''https://e.com/a.png'',
      [ProcessLog Error ''Failed to download image: https://e.com/a.png'',
       ConsoleWarn ''Failed to download image: https://e.com/a.png''])
     \<in> set (attemptsOf (snd (downloadImage (\<lambda>st u. Rejects) ''https://e.com/a.png'')))"
    unfolding m by simp
  from mem e n l show ?thesis by (intro conjI)
qed

section \<open>File names\<close>

lemma charCode_digitChar: "d < 10 \<Longrightarrow> charCode (digitChar d) = 48 + d"
  by (simp add: digitChar_def charCode_def)

lemma digitsValue_natToString: "digitsValue (natToString n) = n"
proof (induction n rule: natToString.induct)
  case (1 n)
  show ?case
  proof (cases "n < 10")
    case True
    then show ?thesis
      by (subst natToString.simps) (simp add: digitsValue_def charCode_digitChar)
  next
    case False
    then have "digitsValue (natToString (n div 10)) = n div 10" using 1 by simp
    moreover have "n mod 10 < 10" by simp
    ultimately show ?thesis using False
      by (subst natToString.simps) (simp add: digitsValue_def charCode_digitChar)
  qed
qed

lemma natToString_inj: "natToString n = natToString m \<Longrightarrow> n = m"
proof -
  assume "natToString n = natToString m"
  then have "digitsValue (natToString n) = digitsValue (natToString m)" by simp
  then show "n = m" by (simp only: digitsValue_natToString)
qed

lemma isDigit_digitChar: "d < 10 \<Longrightarrow> isDigit (digitChar d)"
  by (simp add: isDigit_def inRange_def charCode_digitChar) (simp add: charCode_def)

lemma natToString_digits: "c \<in> set (natToString n) \<Longrightarrow> isDigit c"
proof (induction n rule: natToString.induct)
  case (1 n)
  show ?case
  proof (cases "n < 10")
    case True
    with 1(2) show ?thesis
      by (subst (asm) natToString.simps) (simp add: isDigit_digitChar)
  next
    case False
    from 1(2) have "c \<in> set (natToString (n div 10)) \<or> c = digitChar (n mod 10)"
      using False by (subst (asm) natToString.simps) auto
    then show ?thesis using 1(1) False by (auto simp: isDigit_digitChar)
  qed
qed

lemma natToString_nonempty: "natToString n \<noteq> []"
  by (subst natToString.simps) simp

lemma split_last:
  assumes "\<forall>x \<in> set e. P x" and "\<forall>x \<in> set e'. P x" and "\<not> P z"
    and eq: "a @ z # e = b @ z # e'"
  shows "a = b \<and> e = e'"
proof -
  have "takeWhile P (rev (a @ z # e)) = rev e"
    using assms(1,3) by (simp add: takeWhile_tail)
  moreover have "takeWhile P (rev (b @ z # e')) = rev e'"
    using assms(2,3) by (simp add: takeWhile_tail)
  ultimately have "rev e = rev e'" using eq by simp
  then have "e = e'" by simp
  with eq show ?thesis by simp
qed

lemma imageExtension_valid: "imageExtension u \<in> set validImageExtensions"
  by (simp add: imageExtension_def Let_def validImageExtensions_def)

lemma valid_noDot: "e \<in> set validImageExtensions \<Longrightarrow> \<forall>x \<in> set e. x \<noteq> CHR ''.''"
  by (auto simp: validImageExtensions_def)

lemma imageExtension_noDot: "\<forall>x \<in> set (imageExtension u). x \<noteq> CHR ''.''"
  using imageExtension_valid valid_noDot by blast

lemma isDigit_minus: "\<not> isDigit CHR ''-''"
  by (simp add: isDigit_def inRange_def charCode_def)

lemma isDigit_l: "\<not> isDigit CHR ''l''"
  by (simp add: isDigit_def inRange_def charCode_def)

lemma isDigit_dot: "isDigit c \<Longrightarrow> c \<noteq> CHR ''.''"
  by (auto simp: isDigit_def inRange_def charCode_def)

lemma body_name_inj:
  assumes e: "\<forall>x \<in> set e. x \<noteq> CHR ''.''" and e': "\<forall>x \<in> set e'. x \<noteq> CHR ''.''"
    and eq: "c @ ''-'' @ natToString i @ ''.'' @ e = c' @ ''-'' @ natToString j @ ''.'' @ e'"
  shows "c = c' \<and> i = j \<and> e = e'"
proof -
  from eq have "(c @ CHR ''-'' # natToString i) @ CHR ''.'' # e
      = (c' @ CHR ''-'' # natToString j) @ CHR ''.'' # e'" by simp
  with e e' have 1: "c @ CHR ''-'' # natToString i = c' @ CHR ''-'' # natToString j \<and> e = e'"
    by (intro split_last [where P = "\<lambda>x. x \<noteq> CHR ''.''"]) auto
  have "c = c' \<and> natToString i = natToString j"
    using 1 natToString_digits isDigit_minus
    by (intro split_last [where P = isDigit and z = "CHR ''-''"]) auto
  with 1 show ?thesis by (auto dest: natToString_inj)
qed

lemma thumbnail_name_inj:
  assumes e: "\<forall>x \<in> set e. x \<noteq> CHR ''.''" and e': "\<forall>x \<in> set e'. x \<noteq> CHR ''.''"
    and eq: "b @ ''-thumbnail.'' @ e = b' @ ''-thumbnail.'' @ e'"
  shows "b = b' \<and> e = e'"
proof -
  from eq have "(b @ ''-thumbnail'') @ CHR ''.'' # e = (b' @ ''-thumbnail'') @ CHR ''.'' # e'"
    by simp
  with e e' have "b @ ''-thumbnail'' = b' @ ''-thumbnail'' \<and> e = e'"
    by (intro split_last [where P = "\<lambda>x. x \<noteq> CHR ''.''"]) auto
  then show ?thesis by simp
qed

lemma thumbnail_body_differ:
  assumes e: "\<forall>x \<in> set e. x \<noteq> CHR ''.''" and e': "\<forall>x \<in> set e'. x \<noteq> CHR ''.''"
  shows "b @ ''-thumbnail.'' @ e \<noteq> c @ ''-'' @ natToString i @ ''.'' @ e'"
proof
  assume "b @ ''-thumbnail.'' @ e = c @ ''-'' @ natToString i @ ''.'' @ e'"
  then have "(b @ ''-thumbnail'') @ CHR ''.'' # e = (c @ CHR ''-'' # natToString i) @ CHR ''.'' # e'"
    by simp
  with e e' have "b @ ''-thumbnail'' = c @ CHR ''-'' # natToString i \<and> e = e'"
    by (intro split_last [where P = "\<lambda>x. x \<noteq> CHR ''.''"]) auto
  then have "last (b @ ''-thumbnail'') = last (c @ CHR ''-'' # natToString i)" by simp
  then have "CHR ''l'' = last (natToString i)"
    using natToString_nonempty [of i] by simp
  moreover have "isDigit (last (natToString i))"
    using natToString_nonempty [of i] natToString_digits last_in_set by blast
  ultimately show False using isDigit_l by simp
qed

section \<open>Properties of one article\<close>

text \<open>
  C2. The claim: for every collected image, the thumbnail included, the query string is
  stripped before the file name is derived, and the slug in the name keeps only
  \<open>[A-Za-z0-9-]\<close>. For slug \<open>a_b\<close> and the URL \<open>https://x/t.jpg?v=1.2\<close>, both as the
  thumbnail and as a body image: the body image is fetched from \<open>https://x/t.jpg\<close> and
  named \<open>ab-1.jpg\<close>; the thumbnail is fetched with its query string and named
  \<open>a_b-thumbnail.png\<close>.
\<close>

theorem thumbnail_name_keeps_slug_and_query: "dispatched ''![i](https://x/t.jpg?v=1.2)'' ''a_b.md''
       (Some [(''slug'', JString ''a_b''), (''url'', JString ''https://site/a''),
              (''thumbnail'', JString ''https://x/t.jpg?v=1.2'')])
   = Inr [Task True ''https://x/t.jpg?v=1.2'' ''https://x/t.jpg?v=1.2'' ''a_b-thumbnail.png'',
          Task False ''https://x/t.jpg'' ''https://x/t.jpg?v=1.2'' ''ab-1.jpg'']"
  by code_simp

text \<open>What the callbacks do with the counter and the progress: after a download that
  returned, and after one that rejected.\<close>

lemma settle_returned_download:
  assumes "fst (downloadImage net (taskUrl t)) = Inr r"
  shows "completed (settle T net t s) = completed s + 1
    \<and> last (emitted (settle T net t s)) = ImageDownloadProgress (completed s + 1) T (taskUrl t)"
  using assms by (auto simp: settle_def split: prod.splits sum.splits option.splits)

lemma settle_rejected_download:
  assumes "fst (downloadImage net (taskUrl t)) = Inl err"
  shows "completed (settle T net t s) = completed s + 1
    \<and> emitted (settle T net t s)
        = emitted s @ snd (downloadImage net (taskUrl t))
          @ [ConsoleWarn ((if isThumbnail t then ''Failed to process thumbnail ''
                           else ''Failed to process image '') @ taskUrl t @ '':'')]"
  using assms by (auto simp: settle_def split: prod.splits sum.splits option.splits)

text \<open>
  C3. The claim: every settled fetch, in success or in failure, advances the counter and
  emits the progress. A download that rejects (here on the malformed escape of C5) runs
  the \<open>.catch\<close> callback: the failure is recorded and the counter advances to 1 of 1,
  and no \<open>imageDownloadProgress\<close> event is emitted.
\<close>

theorem rejected_download_emits_no_progress: "map_sum id (\<lambda>r. (completed r, failures r, emitted r)) (processMarkdownImages failingEnv
       ''![i](https://proxy-prod.omnivore-image-cache.app/0x0/https://e.com/100%.png)'' ''a.md'' None)
   = Inr (1, [DownloadFailure
            ''https://proxy-prod.omnivore-image-cache.app/0x0/https://e.com/100%.png''
            ''a-1.png'' ''URI malformed''], 
         [ProgressCallback ''Processing images''
            (Some
              ''https://proxy-prod.omnivore-image-cache.app/0x0/https://e.com/100%.png''),
           Fetch ViaProxy
            ''https://proxy-prod.omnivore-image-cache.app/0x0/https://e.com/100%.png'',
           ConsoleWarn
            ''Failed to process image https://proxy-prod.omnivore-image-cache.app/0x0/https://e.com/100%.png:''])"
  by code_simp

lemma bodyTask_simps:
  "isThumbnail (bodyTask b i m) = False"
  "matchedText (bodyTask b i m) = m"
  "taskUrl (bodyTask b i m) = stripQuery m"
  "taskFilename (bodyTask b i m)
     = cleanName b @ ''-'' @ natToString i @ ''.'' @ imageExtension (stripQuery m)"
  by (simp_all add: bodyTask_def Let_def)

lemma map_snd_enumerate: "map snd (enumerate n xs) = xs"
  by (simp add: enumerate_eq_zip)

lemma bodyTasks_matched: "map matchedText (bodyTasks b ms) = ms"
proof -
  have "map matchedText (bodyTasks b ms) = map snd (enumerate 1 ms)"
    unfolding bodyTasks_def by (simp add: bodyTask_simps comp_def split_def)
  then show ?thesis by (simp only: map_snd_enumerate)
qed

lemma bodyTasks_url: "map taskUrl (bodyTasks b ms) = map stripQuery ms"
proof -
  have "map taskUrl (bodyTasks b ms) = map (\<lambda>p. stripQuery (snd p)) (enumerate 1 ms)"
    unfolding bodyTasks_def by (simp add: bodyTask_simps comp_def split_def)
  also have "\<dots> = map stripQuery (map snd (enumerate 1 ms))"
    by (simp only: map_map comp_def)
  finally show ?thesis by (simp only: map_snd_enumerate)
qed

lemma bodyTasks_filename:
  "map taskFilename (bodyTasks b ms)
     = map (\<lambda>(i, m). cleanName b @ ''-'' @ natToString i @ ''.'' @ imageExtension (stripQuery m))
         (enumerate 1 ms)"
  unfolding bodyTasks_def by (simp add: bodyTask_simps comp_def split_def)

lemma bodyTasks_body: "bodyOnly (bodyTasks b ms) = bodyTasks b ms"
  unfolding bodyOnly_def bodyTasks_def
  by (rule filter_True) (auto simp: bodyTask_simps)

lemma length_bodyTasks: "length (bodyTasks b ms) = length ms"
  by (simp add: bodyTasks_def)

lemma bodyTasks_distinct: "distinct (map taskFilename (bodyTasks b ms))"
proof -
  let ?f = "\<lambda>(i, m). cleanName b @ ''-'' @ natToString i @ ''.'' @ imageExtension (stripQuery m)"
  have d: "distinct (map fst (enumerate 1 ms))" by simp
  have de: "distinct (enumerate 1 ms)" by simp
  have "inj_on ?f (set (enumerate 1 ms))"
  proof (rule inj_onI)
    fix x y
    assume x: "x \<in> set (enumerate 1 ms)" and y: "y \<in> set (enumerate 1 ms)" and eq: "?f x = ?f y"
    obtain i m where xm: "x = (i, m)" by (cases x)
    obtain j m' where ym: "y = (j, m')" by (cases y)
    from eq have "i = j"
      using body_name_inj [OF imageExtension_noDot imageExtension_noDot, of "cleanName b" i
          "stripQuery m" "cleanName b" j "stripQuery m'"]
      by (simp add: xm ym)
    with x y d show "x = y"
      unfolding xm ym by (metis eq_key_imp_eq_value)
  qed
  with de show ?thesis
    by (simp only: bodyTasks_filename distinct_map)
qed

lemma completed_settle: "completed (settle T net t s) = completed s + 1"
  by (simp add: settle_def split: prod.split sum.split option.split)

lemma completed_settleAll: "completed (settleAll env T q s) = completed s + length q"
proof (induction q arbitrary: s)
  case Nil
  then show ?case by (simp add: settleAll_def)
next
  case (Cons a q)
  have "settleAll env T (a # q) s
      = settleAll env T q (settle T (networkOf env (fst a)) (snd a) s)"
    by (simp add: settleAll_def case_prod_beta)
  then show ?case using Cons.IH by (simp add: completed_settle)
qed

lemma length_completionOrder: "length (completionOrder env ts) = length ts"
  by (simp add: completionOrder_def)

lemma dispatched_cases:
  assumes "dispatched markdown mdFilename metadata = Inr ts"
  shows "(\<not> truthy (thumbnailOf metadata)
            \<and> ts = bodyTasks (stripSuffix ''.md'' mdFilename) (matchAll markdown))
       \<or> (\<exists>thumbnailUrl. truthy (thumbnailOf metadata)
            \<and> thumbnailOf metadata = Some (JString thumbnailUrl)
            \<and> ts = thumbnailTask (stripSuffix ''.md'' mdFilename) thumbnailUrl
                   # bodyTasks (stripSuffix ''.md'' mdFilename) (matchAll markdown))"
  using assms
  by (auto simp: dispatched_def Let_def split: if_splits option.splits jsvalue.splits)

lemma dispatched_body:
  assumes "dispatched markdown mdFilename metadata = Inr ts"
  shows "bodyOnly ts = bodyTasks (stripSuffix ''.md'' mdFilename) (matchAll markdown)"
  using dispatched_cases [OF assms] bodyTasks_body
  by (auto simp: bodyOnly_def thumbnailTask_def)

lemma dispatched_total:
  assumes "dispatched markdown mdFilename metadata = Inr ts"
  shows "totalOf markdown metadata = length ts"
  using dispatched_cases [OF assms]
  by (auto simp: totalOf_def length_bodyTasks)

lemma settleAll_Cons:
  "settleAll env T ((i, t) # q) s = settleAll env T q (settle T (networkOf env i) t s)"
  by (simp add: settleAll_def)

lemma settleAll_Nil: "settleAll env T [] s = s"
  by (simp add: settleAll_def)

lemma attemptEvents_noFirstFetch:
  "filter (\<lambda>e. e = Fetch st' u') (attemptEvents net st u) = []"
  using attemptEvents_noFetch [of "Fetch st' u'" net st u] by (auto simp: filter_empty_conv)

lemma downloadImage_firstFetch:
  "length (filter (\<lambda>e. e = firstFetch u) (snd (downloadImage net url))) = (if url = u then 1 else 0)"
proof -
  obtain r1 e1 where p: "tryProxy net url = (r1, e1)" by (cases "tryProxy net url")
  obtain r3 e3 where d: "tryDirect net url = (r3, e3)" by (cases "tryDirect net url")
  have e1: "e1 = Fetch ViaProxy url # attemptEvents net ViaProxy url"
    using tryProxy_events [of net url] p by simp
  have e3: "e3 = Fetch Direct url # attemptEvents net Direct url"
    using tryDirect_events [of net url] d by simp
  show ?thesis
  proof (cases "sublist ''proxy-prod.omnivore-image-cache.app'' url")
    case False
    then have "downloadImage net url = (Inr r3, e3)"
      by (simp add: downloadImage_def d)
    then show ?thesis using False
      by (auto simp: e3 firstFetch_def attemptEvents_noFirstFetch)
  next
    case True
    have c1: "length (filter (\<lambda>e. e = firstFetch u) e1) = (if url = u then 1 else 0)"
      using True by (auto simp: e1 firstFetch_def attemptEvents_noFirstFetch)
    have c3: "filter (\<lambda>e. e = firstFetch u) e3 = []"
      using True by (auto simp: e3 firstFetch_def attemptEvents_noFirstFetch)
    have c2: "filter (\<lambda>e. e = firstFetch u) (snd (tryOriginal net original)) = []" for original
      by (auto simp: tryOriginal_events firstFetch_def attemptEvents_noFirstFetch)
    show ?thesis
    proof (cases r1)
      case (Some buffer)
      then have "downloadImage net url = (Inr (Some buffer), e1)"
        using True by (simp add: downloadImage_def p)
      then show ?thesis by (simp add: c1)
    next
      case None
      show ?thesis
      proof (cases "matchProxy url")
        case nm: None
        then have "downloadImage net url = (Inr r3, e1 @ e3)"
          using True None by (simp add: downloadImage_def p d)
        then show ?thesis by (simp add: c1 c3)
      next
        case (Some m)
        show ?thesis
        proof (cases "decodeURIComponent m")
          case nd: None
          then have "downloadImage net url = (Inl URIError, e1)"
            using True None Some by (simp add: downloadImage_def p)
          then show ?thesis by (simp add: c1)
        next
          case sd: (Some originalUrl)
          obtain r2 e2 where t: "tryOriginal net originalUrl = (r2, e2)"
            by (cases "tryOriginal net originalUrl")
          have c2': "filter (\<lambda>e. e = firstFetch u) e2 = []"
            using c2 [of originalUrl] t by simp
          show ?thesis
          proof (cases r2)
            case s2: (Some buffer)
            then have "downloadImage net url = (Inr (Some buffer), e1 @ e2)"
              using True None Some sd by (simp add: downloadImage_def p t)
            then show ?thesis by (simp add: c1 c2')
          next
            case n2: None
            then have "downloadImage net url = (Inr r3, e1 @ e2 @ e3)"
              using True None Some sd by (simp add: downloadImage_def p t d)
            then show ?thesis by (simp add: c1 c2' c3)
          qed
        qed
      qed
    qed
  qed
qed

lemma settle_firstFetch:
  "length (filter (\<lambda>e. e = firstFetch u) (emitted (settle T net t s)))
     = length (filter (\<lambda>e. e = firstFetch u) (emitted s)) + (if taskUrl t = u then 1 else 0)"
proof -
  obtain res evs where d: "downloadImage net (taskUrl t) = (res, evs)"
    by (cases "downloadImage net (taskUrl t)")
  have "length (filter (\<lambda>e. e = firstFetch u) evs) = (if taskUrl t = u then 1 else 0)"
    using downloadImage_firstFetch [of u net "taskUrl t"] d by simp
  then show ?thesis
    by (auto simp: settle_def d firstFetch_def split: sum.split option.split)
qed

lemma settleAll_firstFetch:
  "length (filter (\<lambda>e. e = firstFetch u) (emitted (settleAll env T q s)))
     = length (filter (\<lambda>e. e = firstFetch u) (emitted s))
       + length (filter (\<lambda>(i, t). taskUrl t = u) q)"
proof (induction q arbitrary: s)
  case Nil
  then show ?case by (simp add: settleAll_Nil)
next
  case (Cons a q)
  obtain i t where a: "a = (i, t)" by (cases a)
  show ?case
    unfolding a settleAll_Cons Cons.IH settle_firstFetch by simp
qed

lemma completionOrder_urls:
  "length (filter (\<lambda>(i, t). taskUrl t = u) (completionOrder env ts))
     = length (filter (\<lambda>t. taskUrl t = u) ts)"
proof -
  have "filter (\<lambda>(i, t). taskUrl t = u) (completionOrder env ts)
      = sort_key (\<lambda>(i, t). settledAt env i) (filter (\<lambda>(i, t). taskUrl t = u) (enumerate 0 ts))"
    unfolding completionOrder_def by (rule filter_sort)
  then have "length (filter (\<lambda>(i, t). taskUrl t = u) (completionOrder env ts))
      = length (filter (\<lambda>(i, t). taskUrl t = u) (enumerate 0 ts))"
    by simp
  also have "\<dots> = length (filter ((\<lambda>t. taskUrl t = u) \<circ> snd) (enumerate 0 ts))"
    by (simp add: comp_def split_def)
  also have "\<dots> = length (filter (\<lambda>t. taskUrl t = u) (map snd (enumerate 0 ts)))"
    by (simp only: filter_map length_map)
  finally show ?thesis by (simp only: map_snd_enumerate)
qed

lemma announce_noFirstFetch: "filter (\<lambda>e. e = firstFetch u) (map announce ts) = []"
  by (auto simp: filter_empty_conv announce_def firstFetch_def)

lemma processMarkdownImages_fetches:
  assumes "dispatched markdown mdFilename metadata = Inr ts"
  shows "\<exists>r. processMarkdownImages env markdown mdFilename metadata = Inr r
            \<and> completed r = length ts
            \<and> (\<forall>u. length (filter (\<lambda>e. e = firstFetch u) (emitted r))
                     = length (filter (\<lambda>t. taskUrl t = u) ts))"
  using assms
  by (simp add: processMarkdownImages_def Let_def completed_settleAll length_completionOrder
      settleAll_firstFetch announce_noFirstFetch completionOrder_urls)

text \<open>
  C10. Whatever the Markdown, the body downloads dispatched are the matches of the image
  pattern one for one, repetitions of a URL included: the text each replaces, the URL
  each fetches, and a file name with the position of the match as its counter; these
  names are pairwise distinct; \<open>total\<close> counts every one of them; every dispatched
  download settles, each advancing \<open>completed\<close> by one; and each makes its own fetch:
  the events of the article hold, for every URL, as many first fetches of it as there are
  downloads of it.
\<close>

theorem every_reference_is_its_own_download:
  assumes "dispatched markdown mdFilename metadata = Inr ts"
  shows "map matchedText (bodyOnly ts) = matchAll markdown
    \<and> map taskUrl (bodyOnly ts) = map stripQuery (matchAll markdown)
    \<and> map taskFilename (bodyOnly ts)
        = map (\<lambda>(i, m). cleanName (stripSuffix ''.md'' mdFilename) @ ''-'' @ natToString i @ ''.''
                          @ imageExtension (stripQuery m))
            (enumerate 1 (matchAll markdown))
    \<and> distinct (map taskFilename (bodyOnly ts))
    \<and> totalOf markdown metadata = length ts
    \<and> (\<exists>r. processMarkdownImages env markdown mdFilename metadata = Inr r
            \<and> completed r = length ts
            \<and> (\<forall>u. length (filter (\<lambda>e. e = firstFetch u) (emitted r))
                     = length (filter (\<lambda>t. taskUrl t = u) ts)))"
proof -
  have b: "bodyOnly ts = bodyTasks (stripSuffix ''.md'' mdFilename) (matchAll markdown)"
    using assms by (rule dispatched_body)
  have "\<exists>r. processMarkdownImages env markdown mdFilename metadata = Inr r
            \<and> completed r = length ts
            \<and> (\<forall>u. length (filter (\<lambda>e. e = firstFetch u) (emitted r))
                     = length (filter (\<lambda>t. taskUrl t = u) ts))"
    using assms by (rule processMarkdownImages_fetches)
  then show ?thesis
    using dispatched_total [OF assms]
    by (simp only: b bodyTasks_matched bodyTasks_url bodyTasks_filename [symmetric]
        bodyTasks_distinct)
qed

theorem every_reference_is_its_own_download_witness:
  "dispatched ''![a](http://x/y.png) ![b](http://x/y.png)'' ''a.md'' None
     = Inr [Task False ''http://x/y.png'' ''http://x/y.png'' ''a-1.png'',
            Task False ''http://x/y.png'' ''http://x/y.png'' ''a-2.png'']
   \<and> matchAll ''![a](http://x/y.png) ![b](http://x/y.png)'' = [''http://x/y.png'', ''http://x/y.png'']
   \<and> totalOf ''![a](http://x/y.png) ![b](http://x/y.png)'' None = 2
   \<and> length (filter (\<lambda>e. e = Fetch Direct ''http://x/y.png'')
         (emitted (projr (processMarkdownImages failingEnv
            ''![a](http://x/y.png) ![b](http://x/y.png)'' ''a.md'' None)))) = 2"
proof -
  let ?ts = "[Task False ''http://x/y.png'' ''http://x/y.png'' ''a-1.png'',
              Task False ''http://x/y.png'' ''http://x/y.png'' ''a-2.png'']"
  let ?P = "processMarkdownImages failingEnv
            ''![a](http://x/y.png) ![b](http://x/y.png)'' ''a.md'' None"
  have d: "dispatched ''![a](http://x/y.png) ![b](http://x/y.png)'' ''a.md'' None = Inr ?ts"
    by code_simp
  have b: "map matchedText (bodyOnly ?ts) = [''http://x/y.png'', ''http://x/y.png'']"
    by code_simp
  have f: "firstFetch ''http://x/y.png'' = Fetch Direct ''http://x/y.png''"
    by code_simp
  note t = every_reference_is_its_own_download [OF d, of failingEnv]
  from t have 1: "map matchedText (bodyOnly ?ts)
      = matchAll ''![a](http://x/y.png) ![b](http://x/y.png)''"
    by (rule conjunct1)
  from t have 2: "totalOf ''![a](http://x/y.png) ![b](http://x/y.png)'' None = length ?ts"
    by (elim conjE)
  from 1 b have 3: "matchAll ''![a](http://x/y.png) ![b](http://x/y.png)''
      = [''http://x/y.png'', ''http://x/y.png'']"
    by (rule trans [OF sym])
  from 2 have 4: "totalOf ''![a](http://x/y.png) ![b](http://x/y.png)'' None = 2"
    by simp
  from t obtain r where r: "?P = Inr r"
    and c: "\<forall>u. length (filter (\<lambda>e. e = firstFetch u) (emitted r))
                     = length (filter (\<lambda>t. taskUrl t = u) ?ts)"
    by (elim conjE exE)
  from c have "length (filter (\<lambda>e. e = firstFetch ''http://x/y.png'') (emitted r))
      = length (filter (\<lambda>t. taskUrl t = ''http://x/y.png'') ?ts)"
    by (rule spec)
  then have "length (filter (\<lambda>e. e = Fetch Direct ''http://x/y.png'') (emitted r)) = 2"
    by (simp add: f)
  moreover from r have "projr ?P = r" by simp
  ultimately have 5: "length (filter (\<lambda>e. e = Fetch Direct ''http://x/y.png'')
      (emitted (projr ?P))) = 2" by simp
  from d 3 4 5 show ?thesis by (intro conjI)
qed

section \<open>Rewriting and the front matter\<close>

lemma replaceFirst_keeps_prefix:
  assumes "\<not> sublist u F" and "CHR 0x0A \<notin> set u" and "F = [] \<or> last F = CHR 0x0A"
  shows "replaceFirst u rep (F @ B) = F @ replaceFirst u rep B"
  using assms
proof (induction F)
  case Nil
  then show ?case by simp
next
  case (Cons c F')
  have np: "\<not> prefix u (c # F' @ B)"
  proof
    assume "prefix u (c # F' @ B)"
    then have "prefix u ((c # F') @ B)" by simp
    then consider "prefix u (c # F')" | us where "u = (c # F') @ us"
      unfolding prefix_append by blast
    then show False
    proof cases
      case 1
      then have "sublist u (c # F')" by (rule prefix_imp_sublist)
      with Cons.prems(1) show False by simp
    next
      case 2
      from Cons.prems(3) have "last (c # F') = CHR 0x0A" by simp
      moreover have "last (c # F') \<in> set (c # F')" by (rule last_in_set) simp
      ultimately have "CHR 0x0A \<in> set u" using 2 by auto
      with Cons.prems(2) show False by simp
    qed
  qed
  have 1: "\<not> sublist u F'"
    using Cons.prems(1) by (auto simp: sublist_Cons_right)
  have 2: "F' = [] \<or> last F' = CHR 0x0A"
    using Cons.prems(3) by (cases F') auto
  have "replaceFirst u rep (F' @ B) = F' @ replaceFirst u rep B"
    using Cons.IH [OF 1 Cons.prems(2) 2] .
  with np show ?case by simp
qed

lemma urlChar_noNewline: "urlChar c \<Longrightarrow> c \<noteq> CHR 0x0A"
  by (auto simp: urlChar_def isWhiteSpace_def)

lemma matchScheme_urlChars:
  "matchScheme s = Some (scheme, r) \<Longrightarrow> \<forall>c \<in> set scheme. urlChar c"
  by (auto simp: matchScheme_def urlChar_def isWhiteSpace_def split: if_splits)

lemma matchTail_urlChars:
  assumes "matchTail s = Some (u, r)"
  shows "\<forall>c \<in> set u. urlChar c"
proof -
  from assms obtain scheme r0 where sc: "matchScheme (drop 2 s) = Some (scheme, r0)"
    and u: "u = scheme @ takeWhile urlChar r0"
    by (auto simp: matchTail_def split: if_splits option.splits)
  have "\<forall>c \<in> set (takeWhile urlChar r0). urlChar c"
    by (auto dest: set_takeWhileD)
  with matchScheme_urlChars [OF sc] show ?thesis by (auto simp: u)
qed

lemma lazyAlt_urlChars: "lazyAlt s = Some (u, r) \<Longrightarrow> \<forall>c \<in> set u. urlChar c"
proof (induction s)
  case Nil
  then show ?case by simp
next
  case (Cons c cs)
  show ?case
  proof (cases "matchTail (c # cs)")
    case None
    with Cons show ?thesis by (auto split: if_splits)
  next
    case (Some m)
    with Cons.prems have "matchTail (c # cs) = Some (u, r)" by simp
    then show ?thesis by (rule matchTail_urlChars)
  qed
qed

lemma matchAll_urlChars: "u \<in> set (matchAll s) \<Longrightarrow> \<forall>c \<in> set u. urlChar c"
proof (induction s rule: matchAll.induct)
  case 1
  then show ?case by simp
next
  case (2 c cs)
  show ?case
  proof (cases "prefix ''!['' (c # cs)")
    case False
    with 2 show ?thesis by auto
  next
    case True
    show ?thesis
    proof (cases "lazyAlt (tl cs)")
      case None
      with 2 True show ?thesis by auto
    next
      case (Some m)
      obtain v rest where m: "m = (v, rest)" by (cases m)
      from 2(4) True Some m have "u = v \<or> u \<in> set (matchAll rest)" by auto
      then show ?thesis
      proof
        assume "u = v"
        with Some m lazyAlt_urlChars show ?thesis by blast
      next
        assume "u \<in> set (matchAll rest)"
        with 2 True Some m show ?thesis by auto
      qed
    qed
  qed
qed

lemma matchAll_noNewline: "u \<in> set (matchAll s) \<Longrightarrow> CHR 0x0A \<notin> set u"
  using matchAll_urlChars urlChar_noNewline by blast

lemma frontMatterBlock_Inr:
  "frontMatterBlock md = Inr F \<longleftrightarrow>
     (\<exists>lines. map fieldLine md = map Inr lines
        \<and> F = ''---'' @ [CHR 0x0A] @ joinWith [CHR 0x0A] lines @ [CHR 0x0A] @ ''---''
              @ [CHR 0x0A, CHR 0x0A])"
  by (auto simp: frontMatterBlock_def yamlFrontMatter_def andThen_Inr collect_Inr)

lemma frontMatterBlock_last: "frontMatterBlock md = Inr F \<Longrightarrow> F \<noteq> [] \<and> last F = CHR 0x0A"
  by (auto simp: frontMatterBlock_Inr)

lemma newMarkdown_settle_thumbnail:
  "isThumbnail t \<Longrightarrow> newMarkdown (settle T net t s) = newMarkdown s"
  by (simp add: settle_def split: prod.split sum.split option.split)

lemma settle_keeps_front:
  assumes "prefix F (newMarkdown s)" and "sparesFront F t" and "F = [] \<or> last F = CHR 0x0A"
  shows "prefix F (newMarkdown (settle T net t s))"
proof (cases "isThumbnail t")
  case True
  with assms(1) show ?thesis by (simp add: newMarkdown_settle_thumbnail)
next
  case False
  with assms(2) have ns: "\<not> sublist (matchedText t) F" and nl: "CHR 0x0A \<notin> set (matchedText t)"
    by (auto simp: sparesFront_def)
  from assms(1) obtain rest where r: "newMarkdown s = F @ rest" by (auto simp: prefix_def)
  have "prefix F (replaceFirst (matchedText t) rep (newMarkdown s))" for rep
    unfolding r replaceFirst_keeps_prefix [OF ns nl assms(3)] by simp
  with assms(1) False show ?thesis
    by (simp add: settle_def split: prod.split sum.split option.split)
qed

lemma settleAll_keeps_front:
  assumes "prefix F (newMarkdown s)" and "\<forall>(i, t) \<in> set q. sparesFront F t"
    and "F = [] \<or> last F = CHR 0x0A"
  shows "prefix F (newMarkdown (settleAll env T q s))"
  using assms(1,2)
proof (induction q arbitrary: s)
  case Nil
  then show ?case by (simp add: settleAll_def)
next
  case (Cons a q)
  obtain i t where a: "a = (i, t)" by (cases a)
  have st: "settleAll env T (a # q) s = settleAll env T q (settle T (networkOf env i) t s)"
    by (simp add: settleAll_def a)
  have "prefix F (newMarkdown (settle T (networkOf env i) t s))"
    using Cons.prems a assms(3) by (intro settle_keeps_front) auto
  then show ?case
    unfolding st using Cons.prems(2) by (intro Cons.IH) auto
qed

lemma set_completionOrder: "snd ` set (completionOrder env ts) = set ts"
proof -
  have 1: "set (completionOrder env ts) = set (enumerate 0 ts)"
    by (simp add: completionOrder_def)
  have "snd ` set (enumerate 0 ts) = set (map snd (enumerate 0 ts))"
    by (simp only: set_map)
  also have "\<dots> = set ts" by (simp only: map_snd_enumerate)
  finally show ?thesis by (simp only: 1)
qed

lemma dispatched_tasks:
  assumes "dispatched markdown mdFilename metadata = Inr ts" and "t \<in> set ts"
  shows "isThumbnail t \<or> matchedText t \<in> set (matchAll markdown)"
proof (cases "isThumbnail t")
  case True
  then show ?thesis by simp
next
  case False
  with assms(2) have "t \<in> set (bodyOnly ts)" by (simp add: bodyOnly_def)
  then have "matchedText t \<in> set (map matchedText (bodyOnly ts))" by simp
  then show ?thesis
    by (simp only: dispatched_body [OF assms(1)] bodyTasks_matched) simp
qed

lemma processMarkdownImages_keeps_front:
  assumes p: "processMarkdownImages env markdown mdFilename metadata = Inr r"
    and F: "prefix F markdown" "F = [] \<or> last F = CHR 0x0A"
    and free: "\<forall>u \<in> set (matchAll markdown). \<not> sublist u F"
  shows "prefix F (newMarkdown r)"
proof -
  from p obtain ts where d: "dispatched markdown mdFilename metadata = Inr ts"
    and r: "r = settleAll env (totalOf markdown metadata) (completionOrder env ts)
                \<lparr>newMarkdown = markdown, images = [], failures = [], completed = 0,
                 articleMetadata = metadata, emitted = map announce ts\<rparr>"
    by (auto simp: processMarkdownImages_def Let_def split: sum.splits)
  have "\<forall>(i, t) \<in> set (completionOrder env ts). sparesFront F t"
  proof (clarify)
    fix i t
    assume "(i, t) \<in> set (completionOrder env ts)"
    then have "t \<in> snd ` set (completionOrder env ts)" by force
    then have "t \<in> set ts" by (simp only: set_completionOrder)
    from dispatched_tasks [OF d this] free matchAll_noNewline
    show "sparesFront F t" by (auto simp: sparesFront_def)
  qed
  then show ?thesis
    unfolding r using F by (intro settleAll_keeps_front) auto
qed

lemma convertHtmlToMarkdown_newMarkdown:
  assumes "convertHtmlToMarkdown cmc env html url metadata = Inr r"
  shows "\<exists>markdown slug r0. withFrontMatter metadata (cmc html url) = Inr markdown
              \<and> slugOrUntitled metadata = Inr slug
              \<and> processMarkdownImages env markdown (slug @ ''.md'') metadata = Inr r0
              \<and> newMarkdown r = newMarkdown r0 \<and> images r = images r0
              \<and> failures r = failures r0 \<and> articleMetadata r = articleMetadata r0
              \<and> completed r = completed r0"
  using assms by (auto simp: convertHtmlToMarkdown_def andThen_Inr)

lemma withFrontMatter_Some:
  "frontMatterBlock md = Inr F \<Longrightarrow> withFrontMatter (Some md) markdown = Inr (F @ markdown)"
  by (simp add: withFrontMatter_def andThen_def)

lemma front_matter_kept:
  assumes c: "convertHtmlToMarkdown cmc env html url (Some md) = Inr r"
    and fm: "frontMatterBlock md = Inr F"
    and free: "\<forall>u \<in> set (matchAll (F @ cmc html url)). \<not> sublist u F"
  shows "prefix F (newMarkdown r)"
proof -
  from convertHtmlToMarkdown_newMarkdown [OF c] obtain markdown slug r0 where
    w: "withFrontMatter (Some md) (cmc html url) = Inr markdown"
    and p: "processMarkdownImages env markdown (slug @ ''.md'') (Some md) = Inr r0"
    and n: "newMarkdown r = newMarkdown r0" by blast
  from w have m: "markdown = F @ cmc html url"
    by (simp add: withFrontMatter_Some [OF fm])
  have "prefix F (newMarkdown r0)"
    using p
  proof (rule processMarkdownImages_keeps_front)
    show "prefix F markdown" by (simp add: m)
    show "F = [] \<or> last F = CHR 0x0A" using frontMatterBlock_last [OF fm] by simp
    show "\<forall>u \<in> set (matchAll markdown). \<not> sublist u F" using free by (simp only: m)
  qed
  with n show ?thesis by simp
qed

lemma sublist_behind: "sublist x ys \<Longrightarrow> sublist x (zs @ ys)"
proof -
  assume "sublist x ys"
  then obtain ps ss where "ys = ps @ x @ ss" by (auto simp: sublist_def)
  then have "zs @ ys = (zs @ ps) @ x @ ss" by simp
  then show ?thesis unfolding sublist_def by blast
qed

lemma sublist_before: "sublist x ys \<Longrightarrow> sublist x (ys @ zs)"
proof -
  assume "sublist x ys"
  then obtain ps ss where "ys = ps @ x @ ss" by (auto simp: sublist_def)
  then have "ys @ zs = ps @ x @ (ss @ zs)" by simp
  then show ?thesis unfolding sublist_def by blast
qed

lemma joinWith_sublist: "x \<in> set xs \<Longrightarrow> sublist x (joinWith sep xs)"
proof (induction sep xs rule: joinWith.induct)
  case (1 sep)
  then show ?case by simp
next
  case (2 sep x)
  then show ?case by simp
next
  case (3 sep y z zs)
  show ?case
  proof (cases "x = y")
    case True
    then show ?thesis by simp
  next
    case False
    with 3 have "sublist x (joinWith sep (z # zs))" by simp
    then have "sublist x ((y @ sep) @ joinWith sep (z # zs))"
      by (rule sublist_behind)
    then show ?thesis by simp
  qed
qed

lemma fieldLine_in_block:
  assumes "(k, v) \<in> set md" and "frontMatterBlock md = Inr F"
  shows "\<exists>line. fieldLine (k, v) = Inr line \<and> sublist line F"
proof -
  from assms(2) obtain lines where l: "map fieldLine md = map Inr lines"
    and F: "F = ''---'' @ [CHR 0x0A] @ joinWith [CHR 0x0A] lines @ [CHR 0x0A] @ ''---''
              @ [CHR 0x0A, CHR 0x0A]"
    by (auto simp: frontMatterBlock_Inr)
  from assms(1) have "fieldLine (k, v) \<in> set (map fieldLine md)" by force
  then have "fieldLine (k, v) \<in> set (map Inr lines)" by (simp only: l)
  then obtain line where line: "fieldLine (k, v) = Inr line" and mem: "line \<in> set lines"
    by auto
  from mem have "sublist line (joinWith [CHR 0x0A] lines)"
    by (rule joinWith_sublist)
  then have "sublist line (joinWith [CHR 0x0A] lines @ [CHR 0x0A] @ ''---'' @ [CHR 0x0A, CHR 0x0A])"
    by (rule sublist_before)
  then have "sublist line
      ((''---'' @ [CHR 0x0A]) @ joinWith [CHR 0x0A] lines @ [CHR 0x0A] @ ''---'' @ [CHR 0x0A, CHR 0x0A])"
    by (rule sublist_behind)
  then have "sublist line F" by (simp add: F)
  with line show ?thesis by blast
qed

lemma settle_thumbnail_frame:
  assumes "isThumbnail t" and "articleMetadata s = Some md"
  shows "newMarkdown (settle T net t s) = newMarkdown s
    \<and> (\<exists>md'. articleMetadata (settle T net t s) = Some md'
          \<and> (\<forall>k. k \<noteq> ''thumbnail'' \<longrightarrow> getProp md' k = getProp md k))"
  using assms
  by (auto simp: settle_def getProp_def update_conv' split: prod.split sum.split option.split)




text \<open>
  C9, as the claim states it: the thumbnail field of the output always holds the original
  remote URL. When a body image has the URL of the thumbnail, its replacement lands on
  the thumbnail field, and the reference in the body keeps the remote URL.
\<close>

theorem thumbnail_field_rewritten_by_body_image:
  "map_sum id newMarkdown
        (convertHtmlToMarkdown (\<lambda>h u. ''![a](https://x/y.png)'') succeedingEnv
           ''<img alt=\"a\" src=\"https://x/y.png\">'' ''https://site/a''
           (Some [(''slug'', JString ''a''), (''url'', JString ''https://site/a''),
                  (''thumbnail'', JString ''https://x/y.png'')]))
     = Inr ''---\<newline>slug: \"a\"\<newline>url: \"https://site/a\"\<newline>thumbnail: \"./attachments/a-1.png\"\<newline>---\<newline>\<newline>![a](https://x/y.png)''
   \<and> \<not> sublist ''https://x/y.png\"''
        (newMarkdown (projr
          (convertHtmlToMarkdown (\<lambda>h u. ''![a](https://x/y.png)'') succeedingEnv
           ''<img alt=\"a\" src=\"https://x/y.png\">'' ''https://site/a''
           (Some [(''slug'', JString ''a''), (''url'', JString ''https://site/a''),
                  (''thumbnail'', JString ''https://x/y.png'')]))))"
  by code_simp

text \<open>
  C9, amended. The block is serialized from the metadata as it is handed in, and a
  thumbnail download that settles leaves the Markdown text as it was: it writes no
  metadata field but \<open>thumbnail\<close>. So, where no image URL matched in the Markdown
  occurs within the front-matter block, the thumbnail field of the output holds the
  original URL, also when the download has succeeded and the metadata object holds the
  local path.
\<close>

theorem thumbnail_field_keeps_remote_url:
  assumes c: "convertHtmlToMarkdown cmc env html url (Some md) = Inr r"
    and th: "getProp md ''thumbnail'' = Some (JString thumbnailUrl)"
    and fm: "frontMatterBlock md = Inr F"
    and free: "\<forall>u \<in> set (matchAll (F @ cmc html url)). \<not> sublist u F"
  shows "sublist (''thumbnail: '' @ [CHR 0x22] @ thumbnailUrl @ [CHR 0x22]) (newMarkdown r)
     \<and> (\<forall>T net t s m. isThumbnail t \<and> articleMetadata s = Some m \<longrightarrow>
           newMarkdown (settle T net t s) = newMarkdown s
           \<and> (\<exists>m'. articleMetadata (settle T net t s) = Some m'
                 \<and> (\<forall>k. k \<noteq> ''thumbnail'' \<longrightarrow> getProp m' k = getProp m k)))"
proof -
  from th have "(''thumbnail'', JString thumbnailUrl) \<in> set md"
    unfolding getProp_def by (rule map_of_SomeD)
  from fieldLine_in_block [OF this fm] obtain line where
    l: "fieldLine (''thumbnail'', JString thumbnailUrl) = Inr line" and s: "sublist line F"
    by blast
  from l have line: "line = ''thumbnail: '' @ [CHR 0x22] @ thumbnailUrl @ [CHR 0x22]"
    by (simp add: fieldLine_def andThen_def)
  have "sublist F (newMarkdown r)"
    using front_matter_kept [OF c fm free] by (rule prefix_imp_sublist)
  with s have "sublist line (newMarkdown r)"
    by (rule sublist_order.order_trans)
  then have 1: "sublist (''thumbnail: '' @ [CHR 0x22] @ thumbnailUrl @ [CHR 0x22]) (newMarkdown r)"
    by (simp only: line)
  have 2: "\<forall>T net t s m. isThumbnail t \<and> articleMetadata s = Some m \<longrightarrow>
           newMarkdown (settle T net t s) = newMarkdown s
           \<and> (\<exists>m'. articleMetadata (settle T net t s) = Some m'
                 \<and> (\<forall>k. k \<noteq> ''thumbnail'' \<longrightarrow> getProp m' k = getProp m k))"
    using settle_thumbnail_frame by blast
  from 1 2 show ?thesis by (intro conjI)
qed

theorem thumbnail_field_keeps_remote_url_witness:
  "\<not> isl (convertHtmlToMarkdown (\<lambda>h u. ''![a](https://x/y.png)'') succeedingEnv
            ''<img alt=\"a\" src=\"https://x/y.png\">'' ''https://site/a''
            (Some [(''slug'', JString ''a''), (''thumbnail'', JString ''https://x/t.png'')]))
   \<and> sublist ''thumbnail: \"https://x/t.png\"''
        (newMarkdown (projr (convertHtmlToMarkdown (\<lambda>h u. ''![a](https://x/y.png)'') succeedingEnv
            ''<img alt=\"a\" src=\"https://x/y.png\">'' ''https://site/a''
            (Some [(''slug'', JString ''a''), (''thumbnail'', JString ''https://x/t.png'')]))))
   \<and> articleMetadata (projr (convertHtmlToMarkdown (\<lambda>h u. ''![a](https://x/y.png)'') succeedingEnv
            ''<img alt=\"a\" src=\"https://x/y.png\">'' ''https://site/a''
            (Some [(''slug'', JString ''a''), (''thumbnail'', JString ''https://x/t.png'')])))
     = Some [(''slug'', JString ''a''), (''thumbnail'', JString ''./attachments/a-thumbnail.png'')]
   \<and> newMarkdown (settle 1 succeedingNetwork (thumbnailTask ''a'' ''https://x/t.png'')
         \<lparr>newMarkdown = ''text'', images = [], failures = [], completed = 0,
          articleMetadata = Some [(''slug'', JString ''a''), (''thumbnail'', JString ''https://x/t.png'')],
          emitted = []\<rparr>)
     = ''text''"
proof -
  let ?md = "[(''slug'', JString ''a''), (''thumbnail'', JString ''https://x/t.png'')]"
  let ?F = "''---\<newline>slug: \"a\"\<newline>thumbnail: \"https://x/t.png\"\<newline>---\<newline>\<newline>''"
  let ?C = "convertHtmlToMarkdown (\<lambda>h u. ''![a](https://x/y.png)'') succeedingEnv
            ''<img alt=\"a\" src=\"https://x/y.png\">'' ''https://site/a'' (Some ?md)"
  have ok: "\<not> isl ?C" by code_simp
  then have c: "?C = Inr (projr ?C)" by simp
  have th: "getProp ?md ''thumbnail'' = Some (JString ''https://x/t.png'')" by code_simp
  have fm: "frontMatterBlock ?md = Inr ?F" by code_simp
  have free: "\<forall>u \<in> set (matchAll (?F @ ''![a](https://x/y.png)'')). \<not> sublist u ?F"
    by code_simp
  have m: "articleMetadata (projr ?C)
      = Some [(''slug'', JString ''a''), (''thumbnail'', JString ''./attachments/a-thumbnail.png'')]"
    by code_simp
  note t = thumbnail_field_keeps_remote_url [OF c th fm free]
  let ?S = "\<lparr>newMarkdown = ''text'', images = [], failures = [], completed = 0,
          articleMetadata = Some ?md, emitted = []\<rparr>"
  let ?T = "thumbnailTask ''a'' ''https://x/t.png''"
  from t have "\<forall>T net t s m. isThumbnail t \<and> articleMetadata s = Some m \<longrightarrow>
           newMarkdown (settle T net t s) = newMarkdown s
           \<and> (\<exists>m'. articleMetadata (settle T net t s) = Some m'
                 \<and> (\<forall>k. k \<noteq> ''thumbnail'' \<longrightarrow> getProp m' k = getProp m k))"
    by (elim conjE)
  then have "isThumbnail ?T \<and> articleMetadata ?S = Some ?md \<longrightarrow>
           newMarkdown (settle 1 succeedingNetwork ?T ?S) = newMarkdown ?S
           \<and> (\<exists>m'. articleMetadata (settle 1 succeedingNetwork ?T ?S) = Some m'
                 \<and> (\<forall>k. k \<noteq> ''thumbnail'' \<longrightarrow> getProp m' k = getProp ?md k))"
    by (elim allE)
  moreover have "isThumbnail ?T \<and> articleMetadata ?S = Some ?md"
    by (simp add: thumbnailTask_def)
  ultimately have "newMarkdown (settle 1 succeedingNetwork ?T ?S) = newMarkdown ?S
           \<and> (\<exists>m'. articleMetadata (settle 1 succeedingNetwork ?T ?S) = Some m'
                 \<and> (\<forall>k. k \<noteq> ''thumbnail'' \<longrightarrow> getProp m' k = getProp ?md k))"
    by (rule mp)
  then have "newMarkdown (settle 1 succeedingNetwork ?T ?S) = newMarkdown ?S"
    by (rule conjunct1)
  then have f: "newMarkdown (settle 1 succeedingNetwork ?T ?S) = ''text''"
    by simp
  have "sublist (''thumbnail: '' @ [CHR 0x22] @ ''https://x/t.png'' @ [CHR 0x22])
          (newMarkdown (projr ?C))"
    using t by (rule conjunct1)
  then have s: "sublist ''thumbnail: \"https://x/t.png\"'' (newMarkdown (projr ?C))"
    by simp
  from ok s m f show ?thesis by (intro conjI)
qed

section \<open>What a conversion has done when it returns\<close>

lemma keys_settle:
  "fst ` set (images (settle T net t s))
     = (if succeeds net t then insert (taskFilename t) (fst ` set (images s))
        else fst ` set (images s))"
  by (auto simp: settle_def succeeds_def dom_update split: prod.split sum.split option.split)

lemma distinct_settle:
  "distinct (map fst (images s)) \<Longrightarrow> distinct (map fst (images (settle T net t s)))"
  by (auto simp: settle_def distinct_update split: prod.split sum.split option.split)

lemma newMarkdown_settle:
  "newMarkdown (settle T net t s)
     = (if succeeds net t \<and> \<not> isThumbnail t then rewrite (newMarkdown s) t else newMarkdown s)"
  by (auto simp: settle_def succeeds_def rewrite_def split: prod.split sum.split option.split)

lemma keys_settleAll:
  "fst ` set (images (settleAll env T q s)) = fst ` set (images s) \<union> set (storedBy env q)"
proof (induction q arbitrary: s)
  case Nil
  then show ?case by (simp add: settleAll_Nil storedBy_def)
next
  case (Cons a q)
  obtain i t where a: "a = (i, t)" by (cases a)
  have "set (storedBy env (a # q))
      = (if succeeds (networkOf env i) t then {taskFilename t} else {}) \<union> set (storedBy env q)"
    by (simp add: storedBy_def a)
  then show ?case
    unfolding a settleAll_Cons Cons.IH keys_settle by auto
qed

lemma distinct_settleAll:
  "distinct (map fst (images s)) \<Longrightarrow> distinct (map fst (images (settleAll env T q s)))"
proof (induction q arbitrary: s)
  case Nil
  then show ?case by (simp add: settleAll_Nil)
next
  case (Cons a q)
  obtain i t where a: "a = (i, t)" by (cases a)
  show ?case
    unfolding a settleAll_Cons using Cons.prems by (intro Cons.IH distinct_settle)
qed

lemma newMarkdown_settleAll:
  "newMarkdown (settleAll env T q s) = foldl rewrite (newMarkdown s) (rewritesOf env q)"
proof (induction q arbitrary: s)
  case Nil
  then show ?case by (simp add: settleAll_Nil rewritesOf_def)
next
  case (Cons a q)
  obtain i t where a: "a = (i, t)" by (cases a)
  show ?case
    unfolding a settleAll_Cons Cons.IH newMarkdown_settle
    by (simp add: rewritesOf_def)
qed

lemma sameButThumbnail_refl: "sameButThumbnail md md"
  by (simp add: sameButThumbnail_def)

lemma sameButThumbnail_trans:
  "sameButThumbnail a b \<Longrightarrow> sameButThumbnail b c \<Longrightarrow> sameButThumbnail a c"
  by (simp add: sameButThumbnail_def)

lemma sameButThumbnail_update:
  "sameButThumbnail md (AList.update ''thumbnail'' v md)"
  by (simp add: sameButThumbnail_def getProp_def update_conv')

lemma rel_option_sameButThumbnail_trans:
  "rel_option sameButThumbnail a b \<Longrightarrow> rel_option sameButThumbnail b c
    \<Longrightarrow> rel_option sameButThumbnail a c"
  by (cases a; cases b; cases c) (auto intro: sameButThumbnail_trans)

lemma metadata_settle:
  "rel_option sameButThumbnail (articleMetadata s) (articleMetadata (settle T net t s))"
  by (cases "articleMetadata s")
    (auto simp: settle_def sameButThumbnail_refl sameButThumbnail_update
      split: prod.split sum.split option.split)

lemma metadata_settleAll:
  "rel_option sameButThumbnail (articleMetadata s) (articleMetadata (settleAll env T q s))"
proof (induction q arbitrary: s)
  case Nil
  show ?case
    by (cases "articleMetadata s") (simp_all add: settleAll_Nil sameButThumbnail_refl)
next
  case (Cons a q)
  obtain i t where a: "a = (i, t)" by (cases a)
  show ?case
    unfolding a settleAll_Cons
    using metadata_settle Cons.IH by (rule rel_option_sameButThumbnail_trans)
qed

text \<open>What a conversion that returns has done.\<close>

lemma convertHtmlToMarkdown_result:
  assumes "convertHtmlToMarkdown cmc env html url metadata = Inr r"
  shows "\<exists>markdown slug ts. withFrontMatter metadata (cmc html url) = Inr markdown
    \<and> slugOrUntitled metadata = Inr slug
    \<and> dispatched markdown (slug @ ''.md'') metadata = Inr ts
    \<and> newMarkdown r = foldl rewrite markdown (rewritesOf env (completionOrder env ts))
    \<and> fst ` set (images r) = set (storedBy env (completionOrder env ts))
    \<and> distinct (map fst (images r))
    \<and> rel_option sameButThumbnail metadata (articleMetadata r)"
proof -
  from convertHtmlToMarkdown_newMarkdown [OF assms] obtain markdown slug r0 where
    w: "withFrontMatter metadata (cmc html url) = Inr markdown"
    and sl: "slugOrUntitled metadata = Inr slug"
    and p: "processMarkdownImages env markdown (slug @ ''.md'') metadata = Inr r0"
    and eq: "newMarkdown r = newMarkdown r0" "images r = images r0"
      "articleMetadata r = articleMetadata r0" by blast
  from p obtain ts where d: "dispatched markdown (slug @ ''.md'') metadata = Inr ts"
    and r0: "r0 = settleAll env (totalOf markdown metadata) (completionOrder env ts)
                \<lparr>newMarkdown = markdown, images = [], failures = [], completed = 0,
                 articleMetadata = metadata, emitted = map announce ts\<rparr>"
    by (auto simp: processMarkdownImages_def Let_def split: sum.splits)
  have 1: "newMarkdown r0 = foldl rewrite markdown (rewritesOf env (completionOrder env ts))"
    unfolding r0 newMarkdown_settleAll by simp
  have 2: "fst ` set (images r0) = set (storedBy env (completionOrder env ts))"
    unfolding r0 keys_settleAll by simp
  have 3: "distinct (map fst (images r0))"
    unfolding r0 by (rule distinct_settleAll) simp
  have 4: "rel_option sameButThumbnail metadata (articleMetadata r0)"
    unfolding r0 using metadata_settleAll [of "\<lparr>newMarkdown = markdown, images = [], failures = [],
      completed = 0, articleMetadata = metadata, emitted = map announce ts\<rparr>"] by simp
  from w sl d 1 2 3 4 show ?thesis unfolding eq by blast
qed

section \<open>Properties of the batch\<close>

lemma processFile_unmatched:
  assumes "findSlug (slugOfFile file) (metadataList b) = None"
  shows "processFile cmc env (file, html) b = Inr (b\<lparr>logged := logged b @ noMetadataEvents file\<rparr>)"
  using assms by (simp add: processFile_def Let_def noMetadataEvents_def)

lemma processFile_sameOutput:
  assumes "sameOutput b b'"
  shows "rel_sum (=) sameOutput (processFile cmc env e b) (processFile cmc env e b')"
proof -
  obtain fname html where e: "e = (fname, html)" by (cases e)
  from assms have m: "metadataList b' = metadataList b" and r: "results b' = results b"
    and a: "allImages b' = allImages b" and f: "failuresOf b' = failuresOf b"
    by (simp_all add: sameOutput_def)
  show ?thesis
    unfolding e processFile_def Let_def
    by (simp add: m r a f sameOutput_def split: option.split sum.split)
qed

lemma processFiles_sameOutput:
  assumes "sameOutput b b'"
  shows "rel_sum (=) sameOutput (processFiles cmc world k es b) (processFiles cmc world k es b')"
  using assms
proof (induction es arbitrary: k b b')
  case Nil
  then show ?case by simp
next
  case (Cons e es)
  have rs: "rel_sum (=) sameOutput (processFile cmc (world k) e b) (processFile cmc (world k) e b')"
    using Cons.prems by (rule processFile_sameOutput)
  show ?case
  proof (cases "processFile cmc (world k) e b")
    case (Inl x)
    with rs show ?thesis by (cases "processFile cmc (world k) e b'") simp_all
  next
    case (Inr c)
    with rs obtain c' where c': "processFile cmc (world k) e b' = Inr c'" and so: "sameOutput c c'"
      by (cases "processFile cmc (world k) e b'") simp_all
    from Cons.IH [OF so, of "Suc k"] show ?thesis by (simp add: Inr c')
  qed
qed

lemma processFiles_world:
  assumes "\<forall>j. k \<le> j \<and> j < k + length es \<longrightarrow> world j = world' j"
  shows "processFiles cmc world k es b = processFiles cmc world' k es b"
  using assms
proof (induction es arbitrary: k b)
  case Nil
  then show ?case by simp
next
  case (Cons e es)
  have 1: "world k = world' k" using Cons.prems by simp
  have 2: "processFiles cmc world (Suc k) es c = processFiles cmc world' (Suc k) es c" for c
    using Cons.prems by (intro Cons.IH) auto
  show ?case by (simp add: 1 2 split: sum.split)
qed

lemma processFiles_shift:
  "processFiles cmc world (Suc k) es b = processFiles cmc (\<lambda>j. world (Suc j)) k es b"
  by (induction es arbitrary: k b) (simp_all split: sum.split)

lemma processFiles_append:
  "processFiles cmc world k (xs @ ys) b =
     (case processFiles cmc world k xs b of
        Inl err \<Rightarrow> Inl err
      | Inr b' \<Rightarrow> processFiles cmc world (k + length xs) ys b')"
  by (induction xs arbitrary: k b) (simp_all split: sum.split)

lemma rel_sum_sameOutput_trans:
  "rel_sum (=) sameOutput x y \<Longrightarrow> rel_sum (=) sameOutput y z \<Longrightarrow> rel_sum (=) sameOutput x z"
  by (cases x; cases y; cases z) (auto simp: sameOutput_def)

lemma sameOutput_logged: "sameOutput (b\<lparr>logged := l\<rparr>) b"
  by (simp add: sameOutput_def)

lemma findSlug_sameButThumbnail:
  "list_all2 sameButThumbnail ms ms' \<Longrightarrow> findSlug slug ms' = findSlug slug ms"
proof (induction ms ms' rule: list_all2_induct)
  case Nil
  then show ?case by simp
next
  case (Cons m ms m' ms')
  from Cons(1) have "getProp m' ''slug'' = getProp m ''slug''"
    by (simp add: sameButThumbnail_def)
  with Cons(3) show ?case by simp
qed

lemma findSlug_less: "findSlug slug ms = Some i \<Longrightarrow> i < length ms"
  by (induction ms arbitrary: i) (auto split: if_splits)

lemma list_all2_sameButThumbnail_refl: "list_all2 sameButThumbnail ms ms"
  by (simp add: list_all2_refl sameButThumbnail_refl)

lemma list_all2_sameButThumbnail_trans:
  "list_all2 sameButThumbnail a b \<Longrightarrow> list_all2 sameButThumbnail b c
    \<Longrightarrow> list_all2 sameButThumbnail a c"
  by (rule list_all2_trans [of sameButThumbnail sameButThumbnail sameButThumbnail])
    (auto intro: sameButThumbnail_trans)

text \<open>What one turn of the loop does to the batch.\<close>

lemma processFile_cases:
  assumes "processFile cmc env (file, html) b = Inr b'"
  shows "(findSlug (slugOfFile file) (metadataList b) = None
            \<and> b' = b\<lparr>logged := logged b @ noMetadataEvents file\<rparr>)
       \<or> (\<exists>i url r md'. findSlug (slugOfFile file) (metadataList b) = Some i
            \<and> urlOf (metadataList b ! i) = Inr url
            \<and> convertHtmlToMarkdown cmc env html url (Some (metadataList b ! i)) = Inr r
            \<and> articleMetadata r = Some md'
            \<and> sameButThumbnail (metadataList b ! i) md'
            \<and> results b' = results b
                 @ [ConversionResult (slugOfFile file @ ''.md'') (Text (newMarkdown r)) None]
            \<and> allImages b' = assign (allImages b) (images r)
            \<and> metadataList b' = (metadataList b)[i := md']
            \<and> set (logged b) \<subseteq> set (logged b'))"
proof (cases "findSlug (slugOfFile file) (metadataList b)")
  case None
  with assms processFile_unmatched [OF None, of cmc env html] show ?thesis by simp
next
  case (Some i)
  let ?md = "metadataList b ! i"
  from assms Some obtain r where
    a: "andThen (urlOf ?md) (\<lambda>url. convertHtmlToMarkdown cmc env html url (Some ?md)) = Inr r"
    by (auto simp: processFile_def Let_def split: sum.splits)
  then obtain url where u: "urlOf ?md = Inr url"
    and c: "convertHtmlToMarkdown cmc env html url (Some ?md) = Inr r"
    by (auto simp: andThen_Inr)
  from convertHtmlToMarkdown_result [OF c] have "rel_option sameButThumbnail (Some ?md) (articleMetadata r)"
    by blast
  then obtain md' where m: "articleMetadata r = Some md'" and s: "sameButThumbnail ?md md'"
    by (cases "articleMetadata r") auto
  from assms Some a m have
    "results b' = results b
        @ [ConversionResult (slugOfFile file @ ''.md'') (Text (newMarkdown r)) None]"
    "allImages b' = assign (allImages b) (images r)"
    "metadataList b' = (metadataList b)[i := md']"
    "set (logged b) \<subseteq> set (logged b')"
    by (auto simp: processFile_def Let_def)
  with Some u c m s show ?thesis by blast
qed

lemma processFile_metadata:
  assumes "processFile cmc env e b = Inr b'"
  shows "list_all2 sameButThumbnail (metadataList b) (metadataList b')"
proof -
  obtain fname html where e: "e = (fname, html)" by (cases e)
  from processFile_cases [OF assms [unfolded e]] show ?thesis
  proof (elim disjE exE conjE)
    assume "b' = b\<lparr>logged := logged b @ noMetadataEvents fname\<rparr>"
    then show ?thesis by (simp add: list_all2_sameButThumbnail_refl)
  next
    fix i url r md'
    assume i: "findSlug (slugOfFile fname) (metadataList b) = Some i"
      and s: "sameButThumbnail (metadataList b ! i) md'"
      and m: "metadataList b' = (metadataList b)[i := md']"
    have "list_all2 sameButThumbnail (metadataList b) ((metadataList b)[i := md'])"
      using s findSlug_less [OF i]
      by (auto simp: list_all2_conv_all_nth nth_list_update sameButThumbnail_refl)
    with m show ?thesis by simp
  qed
qed

lemma processFile_logged:
  assumes "processFile cmc env e b = Inr b'"
  shows "set (logged b) \<subseteq> set (logged b')"
proof -
  obtain fname html where e: "e = (fname, html)" by (cases e)
  from processFile_cases [OF assms [unfolded e]] show ?thesis by auto
qed

lemma processFiles_metadata:
  "processFiles cmc world k es b = Inr b'
    \<Longrightarrow> list_all2 sameButThumbnail (metadataList b) (metadataList b')"
proof (induction es arbitrary: k b)
  case Nil
  then show ?case by (simp add: list_all2_sameButThumbnail_refl)
next
  case (Cons e es)
  from Cons.prems obtain c where 1: "processFile cmc (world k) e b = Inr c"
    and 2: "processFiles cmc world (Suc k) es c = Inr b'"
    by (auto split: sum.splits)
  from processFile_metadata [OF 1] Cons.IH [OF 2] show ?case
    by (rule list_all2_sameButThumbnail_trans)
qed

lemma processFiles_logged:
  "processFiles cmc world k es b = Inr b' \<Longrightarrow> set (logged b) \<subseteq> set (logged b')"
proof (induction es arbitrary: k b)
  case Nil
  then show ?case by simp
next
  case (Cons e es)
  from Cons.prems obtain c where 1: "processFile cmc (world k) e b = Inr c"
    and 2: "processFiles cmc world (Suc k) es c = Inr b'"
    by (auto split: sum.splits)
  from processFile_logged [OF 1] Cons.IH [OF 2] show ?case by blast
qed

lemma processFiles_skip:
  assumes "findSlug (slugOfFile file) (metadataList b) = None"
  shows "rel_sum (=) sameOutput
           (processFiles cmc world k (xs @ (file, html) # ys) b)
           (processFiles cmc (skipAt (k + length xs) world) k (xs @ ys) b)"
proof -
  let ?n = "k + length xs"
  have w: "processFiles cmc (skipAt ?n world) k xs b = processFiles cmc world k xs b"
    by (rule processFiles_world) (simp add: skipAt_def)
  show ?thesis
  proof (cases "processFiles cmc world k xs b")
    case (Inl err)
    then show ?thesis by (simp add: processFiles_append w)
  next
    case (Inr b1)
    have "findSlug (slugOfFile file) (metadataList b1) = None"
      using findSlug_sameButThumbnail [OF processFiles_metadata [OF Inr]] assms by simp
    then have f: "processFile cmc (world ?n) (file, html) b1
        = Inr (b1\<lparr>logged := logged b1 @ noMetadataEvents file\<rparr>)"
      by (rule processFile_unmatched)
    have "processFiles cmc (skipAt ?n world) ?n ys b1
        = processFiles cmc (\<lambda>j. world (Suc j)) ?n ys b1"
      by (rule processFiles_world) (simp add: skipAt_def)
    also have "\<dots> = processFiles cmc world (Suc ?n) ys b1"
      by (rule processFiles_shift [symmetric])
    finally have r: "processFiles cmc (skipAt ?n world) ?n ys b1
        = processFiles cmc world (Suc ?n) ys b1" .
    have "rel_sum (=) sameOutput
        (processFiles cmc world (Suc ?n) ys (b1\<lparr>logged := logged b1 @ noMetadataEvents file\<rparr>))
        (processFiles cmc world (Suc ?n) ys b1)"
      by (rule processFiles_sameOutput) (rule sameOutput_logged)
    then show ?thesis
      by (simp add: processFiles_append w Inr f r)
  qed
qed

lemma processFiles_warns:
  assumes "findSlug (slugOfFile file) (metadataList b) = None"
    and "processFiles cmc world k (xs @ (file, html) # ys) b = Inr b'"
  shows "ProcessLog Warning (''No metadata found for '' @ file) \<in> set (logged b')"
proof -
  from assms(2) obtain b1 where 1: "processFiles cmc world k xs b = Inr b1"
    and 2: "processFiles cmc world (k + length xs) ((file, html) # ys) b1 = Inr b'"
    by (auto simp: processFiles_append split: sum.splits)
  have n: "findSlug (slugOfFile file) (metadataList b1) = None"
    using findSlug_sameButThumbnail [OF processFiles_metadata [OF 1]] assms(1) by simp
  let ?b2 = "b1\<lparr>logged := logged b1 @ noMetadataEvents file\<rparr>"
  from 2 processFile_unmatched [OF n, of cmc "world (k + length xs)" html]
  have "processFiles cmc world (Suc (k + length xs)) ys ?b2 = Inr b'" by simp
  from processFiles_logged [OF this]
  show ?thesis by (auto simp: noMetadataEvents_def)
qed

lemma processZipContent_cases:
  assumes "processZipContent cmc world es metadata = Inr bf"
  shows "\<exists>b l. processFiles cmc world 0 es
               \<lparr>results = [], allImages = [], failuresOf = [], metadataList = metadata,
                logged = [ProcessLog Info
                            (''Starting to process '' @ natToString (length es) @ '' files'')]\<rparr>
             = Inr b
          \<and> results bf = results b @ imageResults (allImages b)
          \<and> allImages bf = allImages b \<and> failuresOf bf = failuresOf b
          \<and> metadataList bf = metadataList b \<and> logged bf = logged b @ l"
  using assms by (auto simp: processZipContent_def split: sum.splits)

text \<open>
  C6. A file whose slug no metadata record has is skipped: the run gives the results, the
  images, the failures and the metadata it gives without that file (the later files
  keeping their environments), its log holds the warning for the file, and the turn of
  the loop for the file changes nothing but the events, to which it adds the start of
  the file and the warning.
\<close>

theorem unmatched_file_is_skipped:
  assumes "findSlug (slugOfFile file) metadata = None"
  shows "rel_sum (=) sameOutput
           (processZipContent cmc world (xs @ (file, html) # ys) metadata)
           (processZipContent cmc (skipAt (length xs) world) (xs @ ys) metadata)
    \<and> (\<forall>b. processZipContent cmc world (xs @ (file, html) # ys) metadata = Inr b
          \<longrightarrow> ProcessLog Warning (''No metadata found for '' @ file) \<in> set (logged b))
    \<and> (\<forall>env b. findSlug (slugOfFile file) (metadataList b) = None
          \<longrightarrow> processFile cmc env (file, html) b
              = Inr (b\<lparr>logged := logged b @ noMetadataEvents file\<rparr>))"
proof -
  let ?es = "xs @ (file, html) # ys"
  let ?bL = "\<lparr>results = [], allImages = [], failuresOf = [], metadataList = metadata,
              logged = [ProcessLog Info
                          (''Starting to process '' @ natToString (length ?es) @ '' files'')]\<rparr>"
  let ?bR = "\<lparr>results = [], allImages = [], failuresOf = [], metadataList = metadata,
              logged = [ProcessLog Info
                          (''Starting to process '' @ natToString (length (xs @ ys)) @ '' files'')]\<rparr>"
  let ?PL = "processFiles cmc world 0 ?es ?bL"
  let ?PR = "processFiles cmc (skipAt (length xs) world) 0 (xs @ ys) ?bR"
  have n: "findSlug (slugOfFile file) (metadataList ?bL) = None" using assms by simp
  have "rel_sum (=) sameOutput ?PL (processFiles cmc (skipAt (length xs) world) 0 (xs @ ys) ?bL)"
    using processFiles_skip [OF n, of cmc world 0 xs html ys] by simp
  moreover have "rel_sum (=) sameOutput
      (processFiles cmc (skipAt (length xs) world) 0 (xs @ ys) ?bL) ?PR"
    by (rule processFiles_sameOutput) (simp add: sameOutput_def)
  ultimately have rel: "rel_sum (=) sameOutput ?PL ?PR"
    by (rule rel_sum_sameOutput_trans)
  have 1: "rel_sum (=) sameOutput (processZipContent cmc world ?es metadata)
           (processZipContent cmc (skipAt (length xs) world) (xs @ ys) metadata)"
  proof (cases ?PL)
    case (Inl err)
    with rel have "?PR = Inl err" by (cases ?PR) simp_all
    with Inl show ?thesis by (simp add: processZipContent_def)
  next
    case (Inr b)
    with rel obtain b' where r: "?PR = Inr b'" and so: "sameOutput b b'"
      by (cases ?PR) simp_all
    from so show ?thesis
      unfolding processZipContent_def Inr r by (simp add: sameOutput_def)
  qed
  have 2: "\<forall>b. processZipContent cmc world ?es metadata = Inr b
          \<longrightarrow> ProcessLog Warning (''No metadata found for '' @ file) \<in> set (logged b)"
  proof (intro allI impI)
    fix bf
    assume "processZipContent cmc world ?es metadata = Inr bf"
    from processZipContent_cases [OF this]
    obtain b l0 where p: "?PL = Inr b" and "logged bf = logged b @ l0" by blast
    then have l: "set (logged b) \<subseteq> set (logged bf)" by simp
    from processFiles_warns [OF n p] l
    show "ProcessLog Warning (''No metadata found for '' @ file) \<in> set (logged bf)" by blast
  qed
  have 3: "\<forall>env b. findSlug (slugOfFile file) (metadataList b) = None
          \<longrightarrow> processFile cmc env (file, html) b
              = Inr (b\<lparr>logged := logged b @ noMetadataEvents file\<rparr>)"
    by (simp add: processFile_unmatched)
  from 1 2 3 show ?thesis by (intro conjI)
qed

theorem unmatched_file_is_skipped_witness:
  "findSlug (slugOfFile ''content/orphan.html'')
     [[(''slug'', JString ''a''), (''url'', JString ''https://site/a'')]] = None
   \<and> rel_sum (=) sameOutput
        (processZipContent (\<lambda>h u. h) (\<lambda>k. failingEnv)
           ([(''content/a.html'', ''text'')] @ (''content/orphan.html'', ''lost'') # [])
           [[(''slug'', JString ''a''), (''url'', JString ''https://site/a'')]])
        (processZipContent (\<lambda>h u. h) (skipAt (length [(''content/a.html'', ''text'')]) (\<lambda>k. failingEnv))
           ([(''content/a.html'', ''text'')] @ [])
           [[(''slug'', JString ''a''), (''url'', JString ''https://site/a'')]])
   \<and> \<not> isl (processZipContent (\<lambda>h u. h) (\<lambda>k. failingEnv)
           ([(''content/a.html'', ''text'')] @ (''content/orphan.html'', ''lost'') # [])
           [[(''slug'', JString ''a''), (''url'', JString ''https://site/a'')]])
   \<and> ProcessLog Warning (''No metadata found for '' @ ''content/orphan.html'')
       \<in> set (logged (projr (processZipContent (\<lambda>h u. h) (\<lambda>k. failingEnv)
           ([(''content/a.html'', ''text'')] @ (''content/orphan.html'', ''lost'') # [])
           [[(''slug'', JString ''a''), (''url'', JString ''https://site/a'')]])))
   \<and> processFile (\<lambda>h u. h) failingEnv (''content/orphan.html'', ''lost'')
         \<lparr>results = [], allImages = [], failuresOf = [],
          metadataList = [[(''slug'', JString ''a''), (''url'', JString ''https://site/a'')]],
          logged = []\<rparr>
       = Inr \<lparr>results = [], allImages = [], failuresOf = [],
          metadataList = [[(''slug'', JString ''a''), (''url'', JString ''https://site/a'')]],
          logged = noMetadataEvents ''content/orphan.html''\<rparr>"
proof -
  let ?M = "[[(''slug'', JString ''a''), (''url'', JString ''https://site/a'')]]"
  let ?P = "processZipContent (\<lambda>h u. h) (\<lambda>k. failingEnv)
           ([(''content/a.html'', ''text'')] @ (''content/orphan.html'', ''lost'') # []) ?M"
  let ?B = "\<lparr>results = [], allImages = [], failuresOf = [], metadataList = ?M, logged = []\<rparr>"
  have n: "findSlug (slugOfFile ''content/orphan.html'') ?M = None"
    by code_simp
  note t = unmatched_file_is_skipped [OF n, of "\<lambda>h u. h" "\<lambda>k. failingEnv"
      "[(''content/a.html'', ''text'')]" "''lost''" "[]"]
  from t have 1: "rel_sum (=) sameOutput ?P
        (processZipContent (\<lambda>h u. h) (skipAt (length [(''content/a.html'', ''text'')]) (\<lambda>k. failingEnv))
           ([(''content/a.html'', ''text'')] @ []) ?M)"
    by (rule conjunct1)
  have ok: "\<not> isl ?P" by code_simp
  then have run: "?P = Inr (projr ?P)" by simp
  from t have "\<forall>b. ?P = Inr b
      \<longrightarrow> ProcessLog Warning (''No metadata found for '' @ ''content/orphan.html'') \<in> set (logged b)"
    by (elim conjE)
  then have "?P = Inr (projr ?P)
      \<longrightarrow> ProcessLog Warning (''No metadata found for '' @ ''content/orphan.html'')
            \<in> set (logged (projr ?P))"
    by (rule spec)
  from this run have 2: "ProcessLog Warning (''No metadata found for '' @ ''content/orphan.html'')
            \<in> set (logged (projr ?P))"
    by (rule mp)
  from t have "\<forall>env b. findSlug (slugOfFile ''content/orphan.html'') (metadataList b) = None
          \<longrightarrow> processFile (\<lambda>h u. h) env (''content/orphan.html'', ''lost'') b
              = Inr (b\<lparr>logged := logged b @ noMetadataEvents ''content/orphan.html''\<rparr>)"
    by (elim conjE)
  then have "findSlug (slugOfFile ''content/orphan.html'') (metadataList ?B) = None
          \<longrightarrow> processFile (\<lambda>h u. h) failingEnv (''content/orphan.html'', ''lost'') ?B
              = Inr (?B\<lparr>logged := logged ?B @ noMetadataEvents ''content/orphan.html''\<rparr>)"
    by (elim allE)
  moreover have "findSlug (slugOfFile ''content/orphan.html'') (metadataList ?B) = None"
    using n by simp
  ultimately have "processFile (\<lambda>h u. h) failingEnv (''content/orphan.html'', ''lost'') ?B
              = Inr (?B\<lparr>logged := logged ?B @ noMetadataEvents ''content/orphan.html''\<rparr>)"
    by (rule mp)
  then have 3: "processFile (\<lambda>h u. h) failingEnv (''content/orphan.html'', ''lost'') ?B
      = Inr \<lparr>results = [], allImages = [], failuresOf = [], metadataList = ?M,
             logged = noMetadataEvents ''content/orphan.html''\<rparr>"
    by simp
  from n 1 ok 2 3 show ?thesis by (intro conjI)
qed

lemma assign_Cons: "assign target ((k, v) # source) = assign (AList.update k v target) source"
  by (simp add: assign_def)

lemma assign_Nil: "assign target [] = target"
  by (simp add: assign_def)

lemma keys_assign: "fst ` set (assign target source) = fst ` set target \<union> fst ` set source"
proof (induction source arbitrary: target)
  case Nil
  then show ?case by (simp add: assign_Nil)
next
  case (Cons a source)
  obtain k v where a: "a = (k, v)" by (cases a)
  show ?case unfolding a assign_Cons Cons.IH by (auto simp: dom_update)
qed

lemma distinct_assign:
  "distinct (map fst target) \<Longrightarrow> distinct (map fst (assign target source))"
proof (induction source arbitrary: target)
  case Nil
  then show ?case by (simp add: assign_Nil)
next
  case (Cons a source)
  obtain k v where a: "a = (k, v)" by (cases a)
  show ?case unfolding a assign_Cons using Cons.prems by (intro Cons.IH distinct_update)
qed

lemma processFile_grows:
  assumes "processFile cmc env e b = Inr b'"
  shows "set (results b) \<subseteq> set (results b')
    \<and> fst ` set (allImages b) \<subseteq> fst ` set (allImages b')
    \<and> (documentsOnly b \<longrightarrow> documentsOnly b')"
proof -
  obtain fname html where e: "e = (fname, html)" by (cases e)
  from processFile_cases [OF assms [unfolded e]] show ?thesis
  proof (elim disjE exE conjE)
    assume "b' = b\<lparr>logged := logged b @ noMetadataEvents fname\<rparr>"
    then show ?thesis by (simp add: documentsOnly_def)
  next
    fix i url r md'
    assume r: "results b' = results b
                 @ [ConversionResult (slugOfFile fname @ ''.md'') (Text (newMarkdown r)) None]"
      and a: "allImages b' = assign (allImages b) (images r)"
    show ?thesis
      by (auto simp: documentsOnly_def r a keys_assign distinct_assign)
  qed
qed

lemma processFiles_grows:
  "processFiles cmc world k es b = Inr b'
    \<Longrightarrow> set (results b) \<subseteq> set (results b')
      \<and> fst ` set (allImages b) \<subseteq> fst ` set (allImages b')
      \<and> (documentsOnly b \<longrightarrow> documentsOnly b')"
proof (induction es arbitrary: k b)
  case Nil
  then show ?case by simp
next
  case (Cons e es)
  from Cons.prems obtain c where 1: "processFile cmc (world k) e b = Inr c"
    and 2: "processFiles cmc world (Suc k) es c = Inr b'"
    by (auto split: sum.splits)
  from processFile_grows [OF 1] Cons.IH [OF 2] show ?case by blast
qed

lemma attachments_Cons:
  "length (filter (isAttachment name) (imageResults ((k, v) # imgs)))
     = (if k = name then 1 else 0) + length (filter (isAttachment name) (imageResults imgs))"
  by (simp add: imageResults_def isAttachment_def)

lemma attachments_Nil: "length (filter (isAttachment name) (imageResults [])) = 0"
  by (simp add: imageResults_def)

lemma imageResults_absent:
  "name \<notin> fst ` set imgs \<Longrightarrow> length (filter (isAttachment name) (imageResults imgs)) = 0"
proof (induction imgs)
  case Nil
  then show ?case by (simp only: attachments_Nil)
next
  case (Cons a imgs)
  obtain k v where a: "a = (k, v)" by (cases a)
  from Cons.prems have "k \<noteq> name" and "name \<notin> fst ` set imgs" by (auto simp: a)
  with Cons.IH show ?case unfolding a attachments_Cons by simp
qed

lemma imageResults_one:
  assumes "distinct (map fst imgs)" and "name \<in> fst ` set imgs"
  shows "length (filter (isAttachment name) (imageResults imgs)) = 1"
  using assms
proof (induction imgs)
  case Nil
  then show ?case by simp
next
  case (Cons a imgs)
  obtain k v where a: "a = (k, v)" by (cases a)
  show ?case
  proof (cases "k = name")
    case True
    with Cons.prems(1) a have "name \<notin> fst ` set imgs" by simp
    then have "length (filter (isAttachment name) (imageResults imgs)) = 0"
      by (rule imageResults_absent)
    with True show ?thesis unfolding a attachments_Cons by simp
  next
    case False
    with Cons.prems a have "name \<in> fst ` set imgs" and "distinct (map fst imgs)" by auto
    with Cons.IH have "length (filter (isAttachment name) (imageResults imgs)) = 1" by simp
    with False show ?thesis unfolding a attachments_Cons by simp
  qed
qed

lemma documents_none:
  assumes "\<forall>c \<in> set rs. binary c = None"
  shows "filter (isAttachment name) rs = []"
  using assms by (auto simp: filter_empty_conv isAttachment_def)

lemma rewritesOf_stored:
  "t \<in> set (rewritesOf env q) \<Longrightarrow> taskFilename t \<in> set (storedBy env q)"
  by (auto simp: rewritesOf_def storedBy_def)

text \<open>
  C7, as the claim states it: every reference rewritten to \<open>./attachments/{name}\<close> has
  its result \<open>attachments/{name}\<close>. An article shows \<open>https://x/y.jpg.webp\<close> and then
  \<open>https://x/y.jpg\<close>; both downloads succeed, the second settles first. Its
  replacement lands on the first occurrence of its URL, which is the beginning of the
  longer URL in the first reference: that reference now reads
  \<open>./attachments/a-2.jpg.webp\<close>, the results hold \<open>attachments/a-2.jpg\<close> and
  \<open>attachments/a-1.webp\<close> and nothing of that name, and the second reference keeps
  its remote URL although its image is among the results.
\<close>

theorem rewrite_lands_in_longer_url:
  "map_sum id results
     (processZipContent (\<lambda>h u. ''![a](https://x/y.jpg.webp) ![b](https://x/y.jpg)'')
        (\<lambda>k. lateFirstEnv)
        [(''content/a.html'', ''<img src=\"https://x/y.jpg.webp\"><img src=\"https://x/y.jpg\">'')]
        [[(''slug'', JString ''a''), (''url'', JString ''https://site/a'')]])
   = Inr [ConversionResult ''a.md''
            (Text ''---\<newline>slug: \"a\"\<newline>url: \"https://site/a\"\<newline>---\<newline>\<newline>![a](./attachments/a-2.jpg.webp) ![b](https://x/y.jpg)'')
            None,
          ConversionResult ''attachments/a-2.jpg'' (Binary [1, 2, 3]) (Some True),
          ConversionResult ''attachments/a-1.webp'' (Binary [1, 2, 3]) (Some True)]
   \<and> map_sum id failuresOf
     (processZipContent (\<lambda>h u. ''![a](https://x/y.jpg.webp) ![b](https://x/y.jpg)'')
        (\<lambda>k. lateFirstEnv)
        [(''content/a.html'', ''<img src=\"https://x/y.jpg.webp\"><img src=\"https://x/y.jpg\">'')]
        [[(''slug'', JString ''a''), (''url'', JString ''https://site/a'')]])
   = Inr []"
  by code_simp

text \<open>
  C7, amended. When a run returns, for every file that has a metadata record: the conversion of
  the file (with the metadata object as it stands then, which differs from the record
  at most in \<open>thumbnail\<close>) has returned, its document is among the results, the text of
  the document is the Markdown with the rewrites of the body downloads that succeeded,
  in the order they settled, and for each of these rewrites, as for every download that
  succeeded, exactly one result is the binary attachment of that name.
\<close>

theorem rewritten_reference_has_one_attachment:
  assumes run: "processZipContent cmc world (xs @ (file, html) # ys) metadata = Inr b"
    and found: "findSlug (slugOfFile file) metadata = Some i"
  shows "\<exists>md url r markdown slug ts.
      sameButThumbnail (metadata ! i) md
      \<and> urlOf md = Inr url
      \<and> convertHtmlToMarkdown cmc (world (length xs)) html url (Some md) = Inr r
      \<and> withFrontMatter (Some md) (cmc html url) = Inr markdown
      \<and> slugOrUntitled (Some md) = Inr slug
      \<and> dispatched markdown (slug @ ''.md'') (Some md) = Inr ts
      \<and> ConversionResult (slugOfFile file @ ''.md'') (Text (newMarkdown r)) None \<in> set (results b)
      \<and> newMarkdown r
          = foldl rewrite markdown
              (rewritesOf (world (length xs)) (completionOrder (world (length xs)) ts))
      \<and> (\<forall>t \<in> set (rewritesOf (world (length xs)) (completionOrder (world (length xs)) ts)).
            length (filter (isAttachment (taskFilename t)) (results b)) = 1)
      \<and> (\<forall>name \<in> set (storedBy (world (length xs)) (completionOrder (world (length xs)) ts)).
            length (filter (isAttachment name) (results b)) = 1)"
proof -
  let ?env = "world (length xs)"
  let ?b0 = "\<lparr>results = [], allImages = [], failuresOf = [], metadataList = metadata,
              logged = [ProcessLog Info
                          (''Starting to process ''
                           @ natToString (length (xs @ (file, html) # ys)) @ '' files'')]\<rparr>"
  from processZipContent_cases [OF run] obtain b1 where
    p: "processFiles cmc world 0 (xs @ (file, html) # ys) ?b0 = Inr b1"
    and res: "results b = results b1 @ imageResults (allImages b1)" by blast
  from p obtain bx where px: "processFiles cmc world 0 xs ?b0 = Inr bx"
    and p2: "processFiles cmc world (length xs) ((file, html) # ys) bx = Inr b1"
    by (auto simp: processFiles_append split: sum.splits)
  from p2 obtain bz where pf: "processFile cmc ?env (file, html) bx = Inr bz"
    and py: "processFiles cmc world (Suc (length xs)) ys bz = Inr b1"
    by (auto split: sum.splits)
  have d0: "documentsOnly ?b0" by (simp add: documentsOnly_def)
  from processFiles_grows [OF p] d0 have d1: "documentsOnly b1" by simp
  have la: "list_all2 sameButThumbnail metadata (metadataList bx)"
    using processFiles_metadata [OF px] by simp
  then have fx: "findSlug (slugOfFile file) (metadataList bx) = Some i"
    using findSlug_sameButThumbnail found by simp
  let ?md = "metadataList bx ! i"
  have il: "i < length metadata" using found by (rule findSlug_less)
  have sb: "sameButThumbnail (metadata ! i) ?md"
    using la il by (simp add: list_all2_conv_all_nth)
  from processFile_cases [OF pf] fx obtain url r where
    u: "urlOf ?md = Inr url"
    and c: "convertHtmlToMarkdown cmc ?env html url (Some ?md) = Inr r"
    and rz: "results bz = results bx
                 @ [ConversionResult (slugOfFile file @ ''.md'') (Text (newMarkdown r)) None]"
    and az: "allImages bz = assign (allImages bx) (images r)"
    by auto
  from convertHtmlToMarkdown_result [OF c] obtain markdown slug ts where
    w: "withFrontMatter (Some ?md) (cmc html url) = Inr markdown"
    and sl: "slugOrUntitled (Some ?md) = Inr slug"
    and d: "dispatched markdown (slug @ ''.md'') (Some ?md) = Inr ts"
    and n: "newMarkdown r
          = foldl rewrite markdown (rewritesOf ?env (completionOrder ?env ts))"
    and k: "fst ` set (images r) = set (storedBy ?env (completionOrder ?env ts))"
    by blast
  have doc: "ConversionResult (slugOfFile file @ ''.md'') (Text (newMarkdown r)) None
      \<in> set (results b)"
    using processFiles_grows [OF py] rz res by auto
  have stored: "length (filter (isAttachment name) (results b)) = 1"
    if "name \<in> set (storedBy ?env (completionOrder ?env ts))" for name
  proof -
    from that k have "name \<in> fst ` set (allImages bz)" by (simp add: az keys_assign)
    with processFiles_grows [OF py] have "name \<in> fst ` set (allImages b1)" by blast
    moreover from d1 have "distinct (map fst (allImages b1))" by (simp add: documentsOnly_def)
    ultimately have "length (filter (isAttachment name) (imageResults (allImages b1))) = 1"
      by (intro imageResults_one)
    moreover from d1 have "filter (isAttachment name) (results b1) = []"
      by (intro documents_none) (simp add: documentsOnly_def)
    ultimately show ?thesis by (simp add: res)
  qed
  have rew: "length (filter (isAttachment (taskFilename t)) (results b)) = 1"
    if "t \<in> set (rewritesOf ?env (completionOrder ?env ts))" for t
    using that by (intro stored rewritesOf_stored)
  from sb u c w sl d doc n rew stored show ?thesis by blast
qed

theorem rewritten_reference_has_one_attachment_witness:
  "\<not> isl (processZipContent (\<lambda>h u. ''![a](https://x/y.png)'') (\<lambda>k. succeedingEnv)
             [(''content/a.html'', ''<img alt=\"a\" src=\"https://x/y.png\">'')]
             [[(''slug'', JString ''a''), (''url'', JString ''https://site/a'')]])
   \<and> findSlug (slugOfFile ''content/a.html'')
         [[(''slug'', JString ''a''), (''url'', JString ''https://site/a'')]] = Some 0
   \<and> (\<exists>text. ConversionResult ''a.md'' (Text text) None
         \<in> set (results (projr (processZipContent (\<lambda>h u. ''![a](https://x/y.png)'')
               (\<lambda>k. succeedingEnv)
               [(''content/a.html'', ''<img alt=\"a\" src=\"https://x/y.png\">'')]
               [[(''slug'', JString ''a''), (''url'', JString ''https://site/a'')]]))))"
proof -
  let ?M = "[[(''slug'', JString ''a''), (''url'', JString ''https://site/a'')]]"
  let ?P = "processZipContent (\<lambda>h u. ''![a](https://x/y.png)'') (\<lambda>k. succeedingEnv)
             [(''content/a.html'', ''<img alt=\"a\" src=\"https://x/y.png\">'')] ?M"
  have ok: "\<not> isl ?P" by code_simp
  then have "?P = Inr (projr ?P)" by simp
  then have run: "processZipContent (\<lambda>h u. ''![a](https://x/y.png)'') (\<lambda>k. succeedingEnv)
             ([] @ (''content/a.html'', ''<img alt=\"a\" src=\"https://x/y.png\">'') # []) ?M
           = Inr (projr ?P)" by simp
  have found: "findSlug (slugOfFile ''content/a.html'') ?M = Some 0" by code_simp
  have sl: "slugOfFile ''content/a.html'' @ ''.md'' = ''a.md''" by code_simp
  have "\<exists>text. ConversionResult (slugOfFile ''content/a.html'' @ ''.md'') (Text text) None
          \<in> set (results (projr ?P))"
    using rewritten_reference_has_one_attachment [OF run found] by (elim exE conjE) (rule exI, assumption)
  then have "\<exists>text. ConversionResult ''a.md'' (Text text) None \<in> set (results (projr ?P))"
    by (simp only: sl)
  with ok found show ?thesis by (intro conjI)
qed

lemma imageName_body: "imageName (taskFilename (bodyTask b i m))"
  unfolding imageName_def bodyTask_simps
  by (intro exI [of _ "cleanName b @ ''-'' @ natToString i"] exI [of _ "imageExtension (stripQuery m)"])
    (simp add: imageExtension_valid)

lemma imageName_thumbnail: "imageName (taskFilename (thumbnailTask b u))"
  unfolding imageName_def thumbnailTask_def
  by (intro exI [of _ "b @ ''-thumbnail''"] exI [of _ "imageExtension u"])
    (simp add: imageExtension_valid)

lemma imageName_not_document:
  assumes "imageName n"
  shows "''attachments/'' @ n \<noteq> s @ ''.md''"
proof
  assume eq: "''attachments/'' @ n = s @ ''.md''"
  from assms obtain a e where n: "n = a @ ''.'' @ e" and e: "e \<in> set validImageExtensions"
    by (auto simp: imageName_def)
  from eq n have "(''attachments/'' @ a) @ CHR ''.'' # e = s @ CHR ''.'' # ''md''" by simp
  moreover have "\<forall>x \<in> set e. x \<noteq> CHR ''.''" using e by (rule valid_noDot)
  moreover have "\<forall>x \<in> set ''md''. x \<noteq> CHR ''.''" by simp
  ultimately have "e = ''md''"
    using split_last [where P = "\<lambda>x. x \<noteq> CHR ''.''" and z = "CHR ''.''" and e = e and e' = "''md''"
        and a = "''attachments/'' @ a" and b = s] by blast
  with e show False by (simp add: validImageExtensions_def)
qed

lemma dispatched_imageNames:
  assumes "dispatched markdown mdFilename metadata = Inr ts" and "t \<in> set ts"
  shows "imageName (taskFilename t)"
  using dispatched_cases [OF assms(1)] assms(2)
  by (auto simp: bodyTasks_def imageName_body imageName_thumbnail)

lemma dispatched_distinct:
  assumes "dispatched markdown mdFilename metadata = Inr ts"
  shows "distinct (map taskFilename ts)"
proof -
  let ?base = "stripSuffix ''.md'' mdFilename"
  let ?body = "bodyTasks ?base (matchAll markdown)"
  have nb: "taskFilename (thumbnailTask ?base u) \<notin> set (map taskFilename ?body)" for u
  proof
    assume "taskFilename (thumbnailTask ?base u) \<in> set (map taskFilename ?body)"
    then obtain i m where "taskFilename (thumbnailTask ?base u) = taskFilename (bodyTask ?base i m)"
      by (auto simp: bodyTasks_def)
    then show False
      using thumbnail_body_differ [OF imageExtension_noDot imageExtension_noDot, of ?base u
          "cleanName ?base" i "stripQuery m"]
      by (simp add: thumbnailTask_def bodyTask_simps)
  qed
  from dispatched_cases [OF assms] show ?thesis
    using nb bodyTasks_distinct [of ?base "matchAll markdown"] by auto
qed

lemma storedBy_tasks: "set (storedBy env (completionOrder env ts)) \<subseteq> taskFilename ` set ts"
proof
  fix n
  assume "n \<in> set (storedBy env (completionOrder env ts))"
  then obtain i t where "(i, t) \<in> set (completionOrder env ts)" and n: "n = taskFilename t"
    by (auto simp: storedBy_def)
  then have "t \<in> snd ` set (completionOrder env ts)" by force
  then have "t \<in> set ts" by (simp only: set_completionOrder)
  with n show "n \<in> taskFilename ` set ts" by simp
qed

lemma processFile_names:
  assumes "processFile cmc env e b = Inr b'"
  shows "(map filename (results b') = map filename (results b)
          \<or> map filename (results b') = map filename (results b) @ [slugOfFile (fst e) @ ''.md''])
    \<and> (imagesNamed b \<longrightarrow> imagesNamed b')"
proof -
  obtain fname html where e: "e = (fname, html)" by (cases e)
  from processFile_cases [OF assms [unfolded e]] show ?thesis
  proof (elim disjE exE conjE)
    assume "b' = b\<lparr>logged := logged b @ noMetadataEvents fname\<rparr>"
    then show ?thesis by (simp add: imagesNamed_def)
  next
    fix i url r md'
    assume c: "convertHtmlToMarkdown cmc env html url (Some (metadataList b ! i)) = Inr r"
      and r: "results b' = results b
                 @ [ConversionResult (slugOfFile fname @ ''.md'') (Text (newMarkdown r)) None]"
      and a: "allImages b' = assign (allImages b) (images r)"
    from convertHtmlToMarkdown_result [OF c] obtain markdown slug ts where
      d: "dispatched markdown (slug @ ''.md'') (Some (metadataList b ! i)) = Inr ts"
      and k: "fst ` set (images r) = set (storedBy env (completionOrder env ts))" by blast
    have "\<forall>n \<in> fst ` set (images r). imageName n"
      unfolding k using storedBy_tasks [of env ts] dispatched_imageNames [OF d] by blast
    then have "imagesNamed b \<longrightarrow> imagesNamed b'"
      by (auto simp: imagesNamed_def a keys_assign)
    then show ?thesis by (simp add: r e)
  qed
qed

lemma processFiles_names:
  assumes "processFiles cmc world k es b = Inr b'"
    and "distinct (map filename (results b))" and "distinct (mdNames es)"
    and "set (map filename (results b)) \<inter> set (mdNames es) = {}"
  shows "distinct (map filename (results b'))
    \<and> set (map filename (results b')) \<subseteq> set (map filename (results b)) \<union> set (mdNames es)
    \<and> (imagesNamed b \<longrightarrow> imagesNamed b')"
  using assms
proof (induction es arbitrary: k b)
  case Nil
  then show ?case by simp
next
  case (Cons e es)
  from Cons.prems(1) obtain c where 1: "processFile cmc (world k) e b = Inr c"
    and 2: "processFiles cmc world (Suc k) es c = Inr b'"
    by (auto split: sum.splits)
  let ?n = "slugOfFile (fst e) @ ''.md''"
  from Cons.prems(3) have ne: "?n \<notin> set (mdNames es)" and de: "distinct (mdNames es)"
    by (simp_all add: mdNames_def)
  from Cons.prems(4) have nb: "?n \<notin> set (map filename (results b))"
    and be: "set (map filename (results b)) \<inter> set (mdNames es) = {}"
    by (auto simp: mdNames_def)
  from processFile_names [OF 1] have
    nc: "map filename (results c) = map filename (results b)
          \<or> map filename (results c) = map filename (results b) @ [?n]"
    and ic: "imagesNamed b \<longrightarrow> imagesNamed c" by blast+
  define Nb where "Nb = set (map filename (results b))"
  define Nc where "Nc = set (map filename (results c))"
  define N' where "N' = set (map filename (results b'))"
  define E where "E = set (mdNames es)"
  from nc have sc: "Nc = Nb \<or> Nc = insert ?n Nb"
  proof
    assume "map filename (results c) = map filename (results b)"
    then have "set (map filename (results c)) = set (map filename (results b))"
      by (simp only:)
    then show ?thesis unfolding Nb_def Nc_def by (rule disjI1)
  next
    assume "map filename (results c) = map filename (results b) @ [?n]"
    then have "set (map filename (results c)) = set (map filename (results b) @ [?n])"
      by (simp only:)
    then show ?thesis unfolding Nb_def Nc_def by simp
  qed
  from nc Cons.prems(2) nb have dc: "distinct (map filename (results c))" by auto
  have be': "Nb \<inter> E = {}" using be unfolding Nb_def E_def .
  have ne': "?n \<notin> E" using ne unfolding E_def .
  from sc be' ne' have "Nc \<inter> E = {}" by auto
  then have ce: "set (map filename (results c)) \<inter> set (mdNames es) = {}"
    unfolding Nc_def E_def .
  note ih = Cons.IH [OF 2 dc de ce]
  have r1: "distinct (map filename (results b'))"
    using ih by (rule conjunct1)
  have r2: "N' \<subseteq> Nc \<union> E"
    unfolding N'_def Nc_def E_def using ih by (elim conjE)
  have r3: "imagesNamed c \<longrightarrow> imagesNamed b'"
    using ih by (elim conjE)
  have "set (mdNames (e # es)) = insert ?n E"
    by (simp add: mdNames_def E_def)
  with r2 sc have "N' \<subseteq> Nb \<union> set (mdNames (e # es))" by auto
  then have "set (map filename (results b'))
      \<subseteq> set (map filename (results b)) \<union> set (mdNames (e # es))"
    unfolding N'_def Nb_def .
  with r1 r3 ic show ?case by (intro conjI) auto
qed

lemma imageResults_names:
  "map filename (imageResults imgs) = map (\<lambda>k. ''attachments/'' @ k) (map fst imgs)"
  by (simp add: imageResults_def comp_def case_prod_beta)

lemma distinct_mdNames:
  assumes "distinct (map (\<lambda>e. slugOfFile (fst e)) es)"
  shows "distinct (mdNames es)"
proof -
  have "mdNames es = map (\<lambda>s. s @ ''.md'') (map (\<lambda>e. slugOfFile (fst e)) es)"
    by (simp add: mdNames_def comp_def)
  moreover have "inj_on (\<lambda>s. s @ ''.md'') (set (map (\<lambda>e. slugOfFile (fst e)) es))"
    by (rule inj_onI) simp
  ultimately show ?thesis using assms by (simp only: distinct_map)
qed

lemma batch_names_distinct:
  assumes d: "distinct (map (\<lambda>e. slugOfFile (fst e)) htmlFiles)"
    and run: "processZipContent cmc world htmlFiles metadata = Inr b"
  shows "distinct (map filename (results b))"
proof -
  let ?b0 = "\<lparr>results = [], allImages = [], failuresOf = [], metadataList = metadata,
              logged = [ProcessLog Info
                          (''Starting to process '' @ natToString (length htmlFiles) @ '' files'')]\<rparr>"
  from processZipContent_cases [OF run] obtain b1 where
    p: "processFiles cmc world 0 htmlFiles ?b0 = Inr b1"
    and res: "results b = results b1 @ imageResults (allImages b1)" by blast
  have "distinct (map filename (results b1))
    \<and> set (map filename (results b1)) \<subseteq> set (map filename (results ?b0)) \<union> set (mdNames htmlFiles)
    \<and> (imagesNamed ?b0 \<longrightarrow> imagesNamed b1)"
    using p by (rule processFiles_names) (simp_all add: distinct_mdNames [OF d])
  then have d1: "distinct (map filename (results b1))"
    and s1: "set (map filename (results b1)) \<subseteq> set (mdNames htmlFiles)"
    and i1: "imagesNamed b1"
    by (simp_all add: imagesNamed_def)
  from processFiles_grows [OF p] have "documentsOnly b1" by (simp add: documentsOnly_def)
  then have k1: "distinct (map fst (allImages b1))" by (simp add: documentsOnly_def)
  have "inj_on (\<lambda>k. ''attachments/'' @ k) (set (map fst (allImages b1)))"
    by (rule inj_onI) simp
  with k1 have d2: "distinct (map filename (imageResults (allImages b1)))"
    by (simp only: imageResults_names distinct_map)
  have disj: "set (map filename (results b1)) \<inter> set (map filename (imageResults (allImages b1))) = {}"
  proof (rule ccontr)
    assume "set (map filename (results b1)) \<inter> set (map filename (imageResults (allImages b1))) \<noteq> {}"
    then obtain x where x1: "x \<in> set (map filename (results b1))"
      and x2: "x \<in> set (map filename (imageResults (allImages b1)))" by blast
    from x1 s1 obtain slug where xs: "x = slug @ ''.md''" by (auto simp: mdNames_def)
    from x2 obtain k where xk: "x = ''attachments/'' @ k" and kk: "k \<in> fst ` set (allImages b1)"
      unfolding imageResults_names by auto
    from i1 kk have "imageName k" unfolding imagesNamed_def by (rule bspec)
    from imageName_not_document [OF this, of slug] xs xk show False by simp
  qed
  have "map filename (results b) = map filename (results b1) @ map filename (imageResults (allImages b1))"
    by (simp add: res)
  with d1 d2 disj show ?thesis by (simp only: distinct_append)
qed

text \<open>
  C1, as the claim states it: image names of articles with distinct slugs never collide,
  and every file name of the output is unique. The slugs \<open>a.b\<close> and \<open>ab\<close> are
  distinct and clean to the same base, so the first image of either is \<open>ab-1.png\<close>
  and the batch holds one attachment for two downloaded images. And two inputs with one
  base name in different folders give two documents of one name.
\<close>

theorem distinct_slugs_same_image_name:
  "''a.b'' \<noteq> ''ab''
   \<and> map_sum id (map taskFilename)
        (dispatched ''![i](https://site/one/cover.png)'' ''a.b.md'' None) = Inr [''ab-1.png'']
   \<and> map_sum id (map taskFilename)
        (dispatched ''![i](https://site/two/cover.png)'' ''ab.md'' None) = Inr [''ab-1.png'']
   \<and> map_sum id (\<lambda>b. map filename (results b))
        (processZipContent (\<lambda>h u. ''![i]('' @ u @ ''/cover.png)'') (\<lambda>k. succeedingEnv)
           [(''content/a.b.html'', ''<img alt=\"i\" src=\"cover.png\">''),
            (''content/ab.html'', ''<img alt=\"i\" src=\"cover.png\">'')]
           [[(''slug'', JString ''a.b''), (''url'', JString ''https://site/one'')],
            [(''slug'', JString ''ab''), (''url'', JString ''https://site/two'')]])
     = Inr [''a.b.md'', ''ab.md'', ''attachments/ab-1.png'']
   \<and> map_sum id (\<lambda>b. map filename (results b))
        (processZipContent (\<lambda>h u. h) (\<lambda>k. succeedingEnv)
           [(''content/x/a.html'', ''one''), (''content/y/a.html'', ''two'')]
           [[(''slug'', JString ''a''), (''url'', JString ''https://site/a'')]])
     = Inr [''a.md'', ''a.md'']"
  by code_simp

lemma stripSuffix_md: "stripSuffix ''.md'' (slug @ ''.md'') = slug"
proof -
  have "suffix ''.md'' (slug @ ''.md'')" by (rule suffixI [of _ slug]) (rule refl)
  then show ?thesis by (simp add: stripSuffix_def)
qed

lemma dispatched_names:
  assumes "dispatched markdown (slug @ ''.md'') metadata = Inr ts" and "t \<in> set ts"
  shows "(\<exists>u. taskFilename t = taskFilename (thumbnailTask slug u))
       \<or> (\<exists>i m. taskFilename t = taskFilename (bodyTask slug i m))"
proof -
  let ?B = "bodyTasks slug (matchAll markdown)"
  from dispatched_cases [OF assms(1)] have "ts = ?B \<or> (\<exists>u. ts = thumbnailTask slug u # ?B)"
    by (auto simp: stripSuffix_md)
  with assms(2) have "t \<in> set ?B \<or> (\<exists>u. t = thumbnailTask slug u)" by auto
  moreover have "\<exists>i m. t = bodyTask slug i m" if "t \<in> set ?B"
    using that by (auto simp: bodyTasks_def)
  ultimately show ?thesis by blast
qed

lemma names_of_distinct_bases:
  assumes d: "dispatched markdown (slug @ ''.md'') metadata = Inr ts"
    and d': "dispatched markdown' (slug' @ ''.md'') metadata' = Inr ts'"
    and ne: "cleanName slug \<noteq> cleanName slug'"
  shows "taskFilename ` set ts \<inter> taskFilename ` set ts' = {}"
proof (rule ccontr)
  assume "taskFilename ` set ts \<inter> taskFilename ` set ts' \<noteq> {}"
  then obtain t t' where t: "t \<in> set ts" and t': "t' \<in> set ts'"
    and eq: "taskFilename t = taskFilename t'" by auto
  from dispatched_names [OF d t] dispatched_names [OF d' t'] show False
  proof (elim disjE exE)
    fix u u'
    assume "taskFilename t = taskFilename (thumbnailTask slug u)"
      and "taskFilename t' = taskFilename (thumbnailTask slug' u')"
    with eq have "slug @ ''-thumbnail.'' @ imageExtension u = slug' @ ''-thumbnail.'' @ imageExtension u'"
      by (simp add: thumbnailTask_def)
    then have "slug = slug'"
      using thumbnail_name_inj [OF imageExtension_noDot imageExtension_noDot] by blast
    with ne show False by simp
  next
    fix u i m
    assume "taskFilename t = taskFilename (thumbnailTask slug u)"
      and "taskFilename t' = taskFilename (bodyTask slug' i m)"
    with eq show False
      using thumbnail_body_differ [OF imageExtension_noDot imageExtension_noDot, of slug u
          "cleanName slug'" i "stripQuery m"]
      by (simp add: thumbnailTask_def bodyTask_simps)
  next
    fix u i m
    assume "taskFilename t = taskFilename (bodyTask slug i m)"
      and "taskFilename t' = taskFilename (thumbnailTask slug' u)"
    with eq show False
      using thumbnail_body_differ [OF imageExtension_noDot imageExtension_noDot, of slug' u
          "cleanName slug" i "stripQuery m"]
      by (simp add: thumbnailTask_def bodyTask_simps)
  next
    fix i m j m'
    assume "taskFilename t = taskFilename (bodyTask slug i m)"
      and "taskFilename t' = taskFilename (bodyTask slug' j m')"
    with eq have "cleanName slug @ ''-'' @ natToString i @ ''.'' @ imageExtension (stripQuery m)
        = cleanName slug' @ ''-'' @ natToString j @ ''.'' @ imageExtension (stripQuery m')"
      by (simp add: bodyTask_simps)
    then have "cleanName slug = cleanName slug'"
      using body_name_inj [OF imageExtension_noDot imageExtension_noDot] by blast
    with ne show False by simp
  qed
qed

lemma images_of_distinct_bases:
  assumes c: "convertHtmlToMarkdown cmc env html url metadata = Inr r"
    and c': "convertHtmlToMarkdown cmc' env' html' url' metadata' = Inr r'"
    and s: "slugOrUntitled metadata = Inr slug" and s': "slugOrUntitled metadata' = Inr slug'"
    and ne: "cleanName slug \<noteq> cleanName slug'"
  shows "fst ` set (images r) \<inter> fst ` set (images r') = {}"
proof -
  from convertHtmlToMarkdown_result [OF c] s obtain markdown ts where
    d: "dispatched markdown (slug @ ''.md'') metadata = Inr ts"
    and k: "fst ` set (images r) = set (storedBy env (completionOrder env ts))" by auto
  from convertHtmlToMarkdown_result [OF c'] s' obtain markdown' ts' where
    d': "dispatched markdown' (slug' @ ''.md'') metadata' = Inr ts'"
    and k': "fst ` set (images r') = set (storedBy env' (completionOrder env' ts'))" by auto
  from names_of_distinct_bases [OF d d' ne] storedBy_tasks [of env ts] storedBy_tasks [of env' ts']
  show ?thesis unfolding k k' by blast
qed

lemma slugOrUntitled_string:
  "getProp md ''slug'' = Some (JString s)
    \<Longrightarrow> slugOrUntitled (Some md) = Inr (if s = [] then ''untitled'' else s)"
  by (simp add: slugOrUntitled_def template_def)

text \<open>
  C1, amended. When the slugs derived from the input files are pairwise distinct, the
  file names of the results are pairwise distinct. The images of an article are named
  after its base, the slug or \<open>untitled\<close> for an empty one: two conversions whose bases
  differ after the characters outside \<open>[A-Za-z0-9-]\<close> are removed store no image under
  the same name. Two body images have the same name exactly when the cleaned bases, the
  counters and the extensions are the same; a thumbnail and a body image never have; and
  the downloads dispatched for one article have pairwise distinct names.
\<close>

theorem result_names_do_not_collide:
  "(distinct (map (\<lambda>e. slugOfFile (fst e)) htmlFiles)
      \<and> processZipContent cmc world htmlFiles metadata = Inr b
      \<longrightarrow> distinct (map filename (results b)))
   \<and> (convertHtmlToMarkdown cmc1 env1 html1 url1 md1 = Inr r1
        \<and> convertHtmlToMarkdown cmc2 env2 html2 url2 md2 = Inr r2
        \<and> slugOrUntitled md1 = Inr base1 \<and> slugOrUntitled md2 = Inr base2
        \<and> cleanName base1 \<noteq> cleanName base2
      \<longrightarrow> fst ` set (images r1) \<inter> fst ` set (images r2) = {})
   \<and> (getProp md ''slug'' = Some (JString slug)
      \<longrightarrow> slugOrUntitled (Some md) = Inr (if slug = [] then ''untitled'' else slug))
   \<and> (taskFilename (bodyTask s i m) = taskFilename (bodyTask s' j m')
        \<longleftrightarrow> cleanName s = cleanName s' \<and> i = j
            \<and> imageExtension (stripQuery m) = imageExtension (stripQuery m'))
   \<and> taskFilename (thumbnailTask s u) \<noteq> taskFilename (bodyTask s' j m')
   \<and> (dispatched markdown mdFilename mdo = Inr ts \<longrightarrow> distinct (map taskFilename ts))"
proof (intro conjI impI)
  assume "distinct (map (\<lambda>e. slugOfFile (fst e)) htmlFiles)
      \<and> processZipContent cmc world htmlFiles metadata = Inr b"
  then show "distinct (map filename (results b))"
    using batch_names_distinct by blast
next
  assume "convertHtmlToMarkdown cmc1 env1 html1 url1 md1 = Inr r1
        \<and> convertHtmlToMarkdown cmc2 env2 html2 url2 md2 = Inr r2
        \<and> slugOrUntitled md1 = Inr base1 \<and> slugOrUntitled md2 = Inr base2
        \<and> cleanName base1 \<noteq> cleanName base2"
  then show "fst ` set (images r1) \<inter> fst ` set (images r2) = {}"
    using images_of_distinct_bases by blast
next
  assume "getProp md ''slug'' = Some (JString slug)"
  then show "slugOrUntitled (Some md) = Inr (if slug = [] then ''untitled'' else slug)"
    by (rule slugOrUntitled_string)
next
  show "taskFilename (bodyTask s i m) = taskFilename (bodyTask s' j m')
        \<longleftrightarrow> cleanName s = cleanName s' \<and> i = j
            \<and> imageExtension (stripQuery m) = imageExtension (stripQuery m')"
  proof
    assume "taskFilename (bodyTask s i m) = taskFilename (bodyTask s' j m')"
    then show "cleanName s = cleanName s' \<and> i = j
        \<and> imageExtension (stripQuery m) = imageExtension (stripQuery m')"
      unfolding bodyTask_simps
      by (intro body_name_inj imageExtension_noDot)
  next
    assume "cleanName s = cleanName s' \<and> i = j
        \<and> imageExtension (stripQuery m) = imageExtension (stripQuery m')"
    then show "taskFilename (bodyTask s i m) = taskFilename (bodyTask s' j m')"
      by (simp add: bodyTask_simps)
  qed
next
  show "taskFilename (thumbnailTask s u) \<noteq> taskFilename (bodyTask s' j m')"
    unfolding thumbnailTask_def task.sel bodyTask_simps
    by (intro thumbnail_body_differ imageExtension_noDot)
next
  assume "dispatched markdown mdFilename mdo = Inr ts"
  then show "distinct (map taskFilename ts)" by (rule dispatched_distinct)
qed

theorem result_names_do_not_collide_witness:
  "distinct (map (\<lambda>e. slugOfFile (fst e))
       [(''content/a.html'', ''<img alt=\"i\" src=\"cover.png\">''),
        (''content/b.html'', ''<img alt=\"i\" src=\"cover.png\">'')])
   \<and> \<not> isl (processZipContent (\<lambda>h u. ''![i]('' @ u @ ''/cover.png)'') (\<lambda>k. succeedingEnv)
           [(''content/a.html'', ''<img alt=\"i\" src=\"cover.png\">''),
            (''content/b.html'', ''<img alt=\"i\" src=\"cover.png\">'')]
           [[(''slug'', JString ''a''), (''url'', JString ''https://site/one'')],
            [(''slug'', JString ''b''), (''url'', JString ''https://site/two'')]])
   \<and> distinct (map filename (results (projr
        (processZipContent (\<lambda>h u. ''![i]('' @ u @ ''/cover.png)'') (\<lambda>k. succeedingEnv)
           [(''content/a.html'', ''<img alt=\"i\" src=\"cover.png\">''),
            (''content/b.html'', ''<img alt=\"i\" src=\"cover.png\">'')]
           [[(''slug'', JString ''a''), (''url'', JString ''https://site/one'')],
            [(''slug'', JString ''b''), (''url'', JString ''https://site/two'')]]))))
   \<and> map_sum id (\<lambda>r. map fst (images r))
        (convertHtmlToMarkdown (\<lambda>h u. ''![i](https://x/y.png)'') succeedingEnv ''<img>''
           ''https://site/one'' (Some [(''slug'', JString ''a'')]))
     = Inr [''a-1.png'']
   \<and> map_sum id (\<lambda>r. map fst (images r))
        (convertHtmlToMarkdown (\<lambda>h u. ''![i](https://x/y.png)'') succeedingEnv ''<img>''
           ''https://site/two'' (Some [(''slug'', JString ''b'')]))
     = Inr [''b-1.png'']
   \<and> fst ` set (images (projr
          (convertHtmlToMarkdown (\<lambda>h u. ''![i](https://x/y.png)'') succeedingEnv ''<img>''
             ''https://site/one'' (Some [(''slug'', JString ''a'')]))))
       \<inter> fst ` set (images (projr
          (convertHtmlToMarkdown (\<lambda>h u. ''![i](https://x/y.png)'') succeedingEnv ''<img>''
             ''https://site/two'' (Some [(''slug'', JString ''b'')]))))
     = {}
   \<and> slugOrUntitled (Some [(''slug'', JString [])]) = Inr ''untitled''
   \<and> taskFilename (bodyTask ''a_b'' 2 ''https://x/y.png'')
       = taskFilename (bodyTask ''ab'' 2 ''https://x/z.png'')
   \<and> cleanName ''a_b'' = cleanName ''ab''
   \<and> dispatched ''![i](https://x/y.png) ![j](https://x/y.png)'' ''a.md''
         (Some [(''slug'', JString ''a''), (''thumbnail'', JString ''https://x/y.png'')])
       = Inr [Task True ''https://x/y.png'' ''https://x/y.png'' ''a-thumbnail.png'',
              Task False ''https://x/y.png'' ''https://x/y.png'' ''a-1.png'',
              Task False ''https://x/y.png'' ''https://x/y.png'' ''a-2.png'']
   \<and> distinct [''a-thumbnail.png'', ''a-1.png'', ''a-2.png'']"
proof -
  let ?files = "[(''content/a.html'', ''<img alt=\"i\" src=\"cover.png\">''),
                 (''content/b.html'', ''<img alt=\"i\" src=\"cover.png\">'')]"
  let ?M = "[[(''slug'', JString ''a''), (''url'', JString ''https://site/one'')],
             [(''slug'', JString ''b''), (''url'', JString ''https://site/two'')]]"
  let ?P = "processZipContent (\<lambda>h u. ''![i]('' @ u @ ''/cover.png)'') (\<lambda>k. succeedingEnv)
              ?files ?M"
  let ?C1 = "convertHtmlToMarkdown (\<lambda>h u. ''![i](https://x/y.png)'') succeedingEnv ''<img>''
               ''https://site/one'' (Some [(''slug'', JString ''a'')])"
  let ?C2 = "convertHtmlToMarkdown (\<lambda>h u. ''![i](https://x/y.png)'') succeedingEnv ''<img>''
               ''https://site/two'' (Some [(''slug'', JString ''b'')])"
  note t = result_names_do_not_collide
  have d: "distinct (map (\<lambda>e. slugOfFile (fst e)) ?files)" by code_simp
  have ok: "\<not> isl ?P" by code_simp
  then have run: "?P = Inr (projr ?P)" by simp
  have 1: "distinct (map filename (results (projr ?P)))"
    using t [THEN conjunct1, rule_format, OF conjI, OF d run] .
  have i1: "map_sum id (\<lambda>r. map fst (images r)) ?C1 = Inr [''a-1.png'']" by code_simp
  have i2: "map_sum id (\<lambda>r. map fst (images r)) ?C2 = Inr [''b-1.png'']" by code_simp
  from i1 have c1: "?C1 = Inr (projr ?C1)" by (cases ?C1) simp_all
  from i2 have c2: "?C2 = Inr (projr ?C2)" by (cases ?C2) simp_all
  have s1: "slugOrUntitled (Some [(''slug'', JString ''a'')]) = Inr ''a''" by code_simp
  have s2: "slugOrUntitled (Some [(''slug'', JString ''b'')]) = Inr ''b''" by code_simp
  have ne: "cleanName ''a'' \<noteq> cleanName ''b''" by code_simp
  from c1 c2 s1 s2 ne have h: "?C1 = Inr (projr ?C1) \<and> ?C2 = Inr (projr ?C2)
      \<and> slugOrUntitled (Some [(''slug'', JString ''a'')]) = Inr ''a''
      \<and> slugOrUntitled (Some [(''slug'', JString ''b'')]) = Inr ''b''
      \<and> cleanName ''a'' \<noteq> cleanName ''b''"
    by (intro conjI)
  have 2: "fst ` set (images (projr ?C1)) \<inter> fst ` set (images (projr ?C2)) = {}"
    using t [THEN conjunct2, THEN conjunct1, rule_format, OF h] .
  have g: "getProp [(''slug'', JString [])] ''slug'' = Some (JString [])" by code_simp
  have "slugOrUntitled (Some [(''slug'', JString [])])
      = Inr (if [] = ([] :: string) then ''untitled'' else [])"
    using t [THEN conjunct2, THEN conjunct2, THEN conjunct1, rule_format, OF g] .
  then have 3: "slugOrUntitled (Some [(''slug'', JString [])]) = Inr ''untitled''" by simp
  have b: "taskFilename (bodyTask ''a_b'' 2 ''https://x/y.png'')
       = taskFilename (bodyTask ''ab'' 2 ''https://x/z.png'')" by code_simp
  have 4: "cleanName ''a_b'' = cleanName ''ab''"
    using t [THEN conjunct2, THEN conjunct2, THEN conjunct2, THEN conjunct1, THEN iffD1, OF b]
    by (rule conjunct1)
  have ds: "dispatched ''![i](https://x/y.png) ![j](https://x/y.png)'' ''a.md''
         (Some [(''slug'', JString ''a''), (''thumbnail'', JString ''https://x/y.png'')])
       = Inr [Task True ''https://x/y.png'' ''https://x/y.png'' ''a-thumbnail.png'',
              Task False ''https://x/y.png'' ''https://x/y.png'' ''a-1.png'',
              Task False ''https://x/y.png'' ''https://x/y.png'' ''a-2.png'']" by code_simp
  have "distinct (map taskFilename
      [Task True ''https://x/y.png'' ''https://x/y.png'' ''a-thumbnail.png'',
       Task False ''https://x/y.png'' ''https://x/y.png'' ''a-1.png'',
       Task False ''https://x/y.png'' ''https://x/y.png'' ''a-2.png''])"
    using t [THEN conjunct2, THEN conjunct2, THEN conjunct2, THEN conjunct2, THEN conjunct2,
        rule_format, OF ds] .
  then have 5: "distinct [''a-thumbnail.png'', ''a-1.png'', ''a-2.png'']"
    by (simp only: list.map task.sel)
  from d ok 1 i1 i2 2 3 b 4 ds 5 show ?thesis by (intro conjI)
qed

end
